theory Spec2Isabelle
  imports Main "HOL-Library.Finite_Map"
begin

section \<open>Characters and strings\<close>

text \<open>
  The program works on Python \<open>str\<close> values.  They are modelled as \<open>string\<close>, a list of
  8-bit characters, each read as the code point of the same number (U+0000 to U+00FF).
  On this range \<open>str.lower\<close> acts character by character, and \<open>str.isspace\<close>, which
  decides what \<open>str.strip()\<close> removes and what the pattern \<open>\s\<close> matches, holds of the
  twelve characters listed below.  Code points above U+00FF are outside the model.
\<close>

definition py_isspace :: "char \<Rightarrow> bool" where
  "py_isspace c \<longleftrightarrow> c \<in> {CHR 0x09, CHR 0x0A, CHR 0x0B, CHR 0x0C, CHR 0x0D,
     CHR 0x1C, CHR 0x1D, CHR 0x1E, CHR 0x1F, CHR 0x20, CHR 0x85, CHR 0xA0}"

definition py_lower_char :: "char \<Rightarrow> char" where
  "py_lower_char c =
     (let n = (of_char c :: nat)
      in if (65 \<le> n \<and> n \<le> 90) \<or> (192 \<le> n \<and> n \<le> 222 \<and> n \<noteq> 215)
         then char_of (n + 32) else c)"

definition lower :: "string \<Rightarrow> string" where
  "lower s = map py_lower_char s"

definition strip :: "string \<Rightarrow> string" where
  "strip s = rev (dropWhile py_isspace (rev (dropWhile py_isspace s)))"

definition startswith :: "string \<Rightarrow> string \<Rightarrow> bool" where
  "startswith s p \<longleftrightarrow> take (length p) s = p"

text \<open>\<open>find_sub sep s\<close> is \<open>s.find(sep)\<close>: the index of the first occurrence of \<open>sep\<close> in
  \<open>s\<close>, or \<open>None\<close> where Python returns \<open>-1\<close>.\<close>

fun find_sub :: "string \<Rightarrow> string \<Rightarrow> nat option" where
  "find_sub sep [] = (if sep = [] then Some 0 else None)"
| "find_sub sep (c # cs) =
     (if startswith (c # cs) sep then Some 0 else map_option Suc (find_sub sep cs))"

text \<open>\<open>sep in s\<close> on strings.\<close>

definition contains :: "string \<Rightarrow> string \<Rightarrow> bool" where
  "contains s sep \<longleftrightarrow> find_sub sep s \<noteq> None"

text \<open>\<open>s.split(sep, 1)\<close>: one part when \<open>sep\<close> does not occur, else the text before and the
  text after its first occurrence.\<close>

definition split_once :: "string \<Rightarrow> string \<Rightarrow> string list" where
  "split_once s sep =
     (case find_sub sep s of
        None \<Rightarrow> [s]
      | Some i \<Rightarrow> [take i s, drop (i + length sep) s])"

section \<open>The regular expressions of the program\<close>

text \<open>
  The five patterns of the program use only single-character classes, greedy and lazy
  repetition of a class, and one capture group.  A pattern is a list of such items, and
  \<open>rx\<close> is the backtracking matcher of Python's \<open>re\<close> on them: \<open>rx p s i g\<close> matches \<open>p\<close>
  against the text \<open>s\<close> that starts at position \<open>i\<close>, with the group bounds \<open>g\<close> recorded
  so far, and returns the end position and the group bounds of the first match in
  backtracking order.
\<close>

datatype item =
    One "char \<Rightarrow> bool"
  | StarG "char \<Rightarrow> bool"
  | PlusG "char \<Rightarrow> bool"
  | StarL "char \<Rightarrow> bool"
  | GOpen
  | GClose

fun rx :: "item list \<Rightarrow> string \<Rightarrow> nat \<Rightarrow> nat \<times> nat \<Rightarrow> (nat \<times> nat \<times> nat) option" where
  "rx [] s i g = Some (i, g)"
| "rx (One p # r) [] i g = None"
| "rx (One p # r) (c # cs) i g = (if p c then rx r cs (Suc i) g else None)"
| "rx (StarG p # r) [] i g = rx r [] i g"
| "rx (StarG p # r) (c # cs) i g =
     (if p c
      then (case rx (StarG p # r) cs (Suc i) g of
              Some m \<Rightarrow> Some m
            | None \<Rightarrow> rx r (c # cs) i g)
      else rx r (c # cs) i g)"
| "rx (PlusG p # r) [] i g = None"
| "rx (PlusG p # r) (c # cs) i g = (if p c then rx (StarG p # r) cs (Suc i) g else None)"
| "rx (StarL p # r) [] i g = rx r [] i g"
| "rx (StarL p # r) (c # cs) i g =
     (case rx r (c # cs) i g of
        Some m \<Rightarrow> Some m
      | None \<Rightarrow> (if p c then rx (StarL p # r) cs (Suc i) g else None))"
| "rx (GOpen # r) s i g = rx r s i (i, snd g)"
| "rx (GClose # r) s i g = rx r s i (fst g, i)"

text \<open>\<open>re.match\<close>: a match anchored at the start of the string.  The result is the end of
  the match and the text of group 1.\<close>

definition re_match :: "item list \<Rightarrow> string \<Rightarrow> (nat \<times> string) option" where
  "re_match p s =
     (case rx p s 0 (0, 0) of
        None \<Rightarrow> None
      | Some (e, a, b) \<Rightarrow> Some (e, take (b - a) (drop a s)))"

text \<open>\<open>re.search\<close>: the match at the leftmost start position that has one.  The end
  position is counted from that start position; the program reads only the group.\<close>

fun re_search :: "item list \<Rightarrow> string \<Rightarrow> (nat \<times> string) option" where
  "re_search p [] = re_match p []"
| "re_search p (c # cs) =
     (case re_match p (c # cs) of
        Some m \<Rightarrow> Some m
      | None \<Rightarrow> re_search p cs)"

text \<open>\<open>re.sub\<close>: every non-overlapping match, leftmost first, is replaced.  Both patterns
  the program substitutes match at least two characters; for a pattern that matches the
  empty text the replacement is inserted and the scan moves on by one character.\<close>

function re_sub :: "item list \<Rightarrow> string \<Rightarrow> string \<Rightarrow> string" where
  "re_sub p repl [] = (case re_match p [] of None \<Rightarrow> [] | Some m \<Rightarrow> repl)"
| "re_sub p repl (c # cs) =
     (case re_match p (c # cs) of
        None \<Rightarrow> c # re_sub p repl cs
      | Some (e, grp) \<Rightarrow>
          (if e = 0 then repl @ c # re_sub p repl cs
           else repl @ re_sub p repl (drop e (c # cs))))"
  by pat_completeness auto
termination
  by (relation "measure (\<lambda>(p, repl, s). length s)") auto

text \<open>Character classes.\<close>

definition dot :: "char \<Rightarrow> bool" where
  "dot c \<longleftrightarrow> c \<noteq> CHR 0x0A"

definition lit :: "char \<Rightarrow> char \<Rightarrow> bool" where
  "lit a c \<longleftrightarrow> c = a"

definition lit_ignorecase :: "char \<Rightarrow> char \<Rightarrow> bool" where
  "lit_ignorecase a c \<longleftrightarrow> py_lower_char c = py_lower_char a"

definition not_lit :: "char \<Rightarrow> char \<Rightarrow> bool" where
  "not_lit a c \<longleftrightarrow> c \<noteq> a"

definition ascii_letter :: "char \<Rightarrow> bool" where
  "ascii_letter c \<longleftrightarrow>
     (let n = (of_char c :: nat) in (97 \<le> n \<and> n \<le> 122) \<or> (65 \<le> n \<and> n \<le> 90))"


section \<open>Loading the dictionary files\<close>

text \<open>What can make a request fail: the interpreter cuts a recursion off that is deeper
  than its limit (\<open>RecursionError\<close>), and a lemmatizer may raise.\<close>

datatype error = RecursionError | BackendError string

datatype pos = NOUN | VERB

text \<open>
  \<open>file_lines\<close> is the iteration over a file opened in text mode: the text is cut after
  every line terminator (\<open>\n\<close>, \<open>\r\n\<close> or \<open>\r\<close>, each read as \<open>\n\<close>), and a last line
  without terminator is kept.  \<open>load_lines\<close> gets the decoded text of the file, or \<open>None\<close>
  when the file does not exist.
\<close>

fun file_lines :: "string \<Rightarrow> string \<Rightarrow> string list" where
  "file_lines [] cur = (if cur = [] then [] else [cur])"
| "file_lines (c # cs) cur =
     (if c = CHR 0x0A then (cur @ [CHR 0x0A]) # file_lines cs []
      else if c = CHR 0x0D
      then (cur @ [CHR 0x0A]) # file_lines (if startswith cs [CHR 0x0A] then tl cs else cs) []
      else file_lines cs (cur @ [c]))"

definition load_lines :: "string option \<Rightarrow> string list" where
  "load_lines file =
     (case file of
        Some text \<Rightarrow> map strip (file_lines text [])
      | None \<Rightarrow> [])"

section \<open>The index\<close>

type_synonym index = "(string, string list) fmap"

text \<open>The pattern \<^verbatim>\<open>^(.*?)\s*\{\<close> of \<open>build_index\<close>, used with \<open>re.match\<close>.  The flag
  \<open>re.IGNORECASE\<close> changes how letters match, and the pattern has none.\<close>

definition headword_pattern :: "item list" where
  "headword_pattern =
     [GOpen, StarL dot, GClose, StarG py_isspace, One (lit CHR ''{'')]"

fun build_index_loop :: "index \<Rightarrow> string list \<Rightarrow> index" where
  "build_index_loop index [] = index"
| "build_index_loop index (line # lines) =
     (case re_match headword_pattern line of
        None \<Rightarrow> build_index_loop index lines
      | Some (e, grp) \<Rightarrow>
          (let key = lower (strip grp);
               bucket = (case fmlookup index key of None \<Rightarrow> [] | Some b \<Rightarrow> b)
           in build_index_loop (fmupd key (bucket @ [line]) index) lines))"

definition build_index :: "string list \<Rightarrow> index" where
  "build_index lines = build_index_loop fmempty lines"

section \<open>Utility functions\<close>

definition FRENCH_ARTICLES :: "string list" where
  "FRENCH_ARTICLES = [''le '', ''la '', ''les '', ''l'' @ [CHR 0x27]]"

definition clean_input :: "string \<Rightarrow> string" where
  "clean_input word0 =
     (let word = lower (strip word0);
          word = (if startswith word ''to '' then drop 3 word else word)
      in fold (\<lambda>article word.
                 if startswith word article then drop (length article) word else word)
           FRENCH_ARTICLES word)"

text \<open>
  Both lemmatizers return a Python set, and the endpoint iterates over it.  The order
  of that iteration is fixed by the hashes of the strings, which the program does not
  control: \<open>set_iter h xs\<close> lists the distinct elements of \<open>xs\<close> by increasing value of a
  hash function \<open>h\<close> that is a parameter of the model.
\<close>

definition set_iter :: "(string \<Rightarrow> nat) \<Rightarrow> string list \<Rightarrow> string list" where
  "set_iter h xs = sort_key h (remdups xs)"

text \<open>
  The two backends are outside the program: WordNet's \<open>lemmatize(word, pos)\<close> and the
  SpaCy pipeline \<open>nlp(word)\<close>, of which the program reads the lemma of each token.
  Either call may raise; the model gives them the result type \<open>error + _\<close>.  They are
  kept, with the two raw line lists and the hash function, in the record \<open>env\<close>.  Its
  field \<open>call_depth\<close> is the number of nested activations of \<open>find_lines_in_index\<close> that
  the interpreter still allows when the endpoint calls it: the recursion limit (1000
  unless it was raised, and the program does not raise it) less the frames that are
  on the stack already.
\<close>

record env =
  EN_FR_LINES :: "string list"
  FR_EN_LINES :: "string list"
  wn_lemmatize :: "string \<Rightarrow> pos \<Rightarrow> error + string"
  nlp :: "string \<Rightarrow> error + string list"
  str_hash :: "string \<Rightarrow> nat"
  call_depth :: nat

definition en_fr_index :: "env \<Rightarrow> index" where
  "en_fr_index E = build_index (EN_FR_LINES E)"

definition fr_en_index :: "env \<Rightarrow> index" where
  "fr_en_index E = build_index (FR_EN_LINES E)"

definition lemmatize_word_english :: "env \<Rightarrow> string \<Rightarrow> error + string list" where
  "lemmatize_word_english E word =
     (case wn_lemmatize E word NOUN of
        Inl e \<Rightarrow> Inl e
      | Inr noun_lemma \<Rightarrow>
          (case wn_lemmatize E word VERB of
             Inl e \<Rightarrow> Inl e
           | Inr verb_lemma \<Rightarrow> Inr (set_iter (str_hash E) [word, noun_lemma, verb_lemma])))"

definition lemmatize_word_french :: "env \<Rightarrow> string \<Rightarrow> error + string list" where
  "lemmatize_word_french E word =
     (case nlp E word of
        Inl e \<Rightarrow> Inl e
      | Inr doc \<Rightarrow>
          Inr (set_iter (str_hash E) [word, (case doc of [] \<Rightarrow> word | lemma0 # _ \<Rightarrow> lemma0)]))"

text \<open>The pattern \<^verbatim>\<open>SEE:\s*(.*?)\s*::\<close> of \<open>extract_see_reference\<close>, used with
  \<open>re.search\<close> and \<open>re.IGNORECASE\<close>.\<close>

definition see_pattern :: "item list" where
  "see_pattern =
     [One (lit_ignorecase CHR ''S''), One (lit_ignorecase CHR ''E''),
      One (lit_ignorecase CHR ''E''), One (lit CHR '':''), StarG py_isspace,
      GOpen, StarL dot, GClose, StarG py_isspace, One (lit CHR '':''), One (lit CHR '':'')]"

definition extract_see_reference :: "string \<Rightarrow> string option" where
  "extract_see_reference line =
     (case re_search see_pattern line of
        None \<Rightarrow> None
      | Some (e, grp) \<Rightarrow> Some (strip grp))"

text \<open>The pattern \<^verbatim>\<open>/[^/]+/\<close> of \<open>remove_phonetics\<close> and the pattern \<^verbatim>\<open>\}\s+\<close> of
  \<open>remove_extra_spaces\<close>, both used with \<open>re.sub\<close>.\<close>

definition phonetics_pattern :: "item list" where
  "phonetics_pattern = [One (lit CHR ''/''), PlusG (not_lit CHR ''/''), One (lit CHR ''/'')]"

definition remove_phonetics :: "string \<Rightarrow> string" where
  "remove_phonetics text = re_sub phonetics_pattern [] text"

definition brace_spaces_pattern :: "item list" where
  "brace_spaces_pattern = [One (lit CHR ''}''), PlusG py_isspace]"

definition remove_extra_spaces :: "string \<Rightarrow> string" where
  "remove_extra_spaces text = re_sub brace_spaces_pattern ''} '' text"

section \<open>Core search functions\<close>

text \<open>
  \<open>find_lines_in_index\<close> mutates the set \<open>visited\<close> that its recursive calls share; the
  model returns the set with the result.  \<open>find_lines_loop\<close> is the \<open>for\<close> loop over the
  bucket, with the list \<open>results\<close> built so far.  The test \<open>if see_ref:\<close> holds of a
  reference that is neither \<open>None\<close> nor the empty string.
\<close>

function find_lines_in_index :: "index \<Rightarrow> string \<Rightarrow> string set \<Rightarrow> string list \<times> string set"
  and find_lines_loop ::
    "index \<Rightarrow> string list \<Rightarrow> string set \<Rightarrow> string list \<Rightarrow> string list \<times> string set"
where
  "find_lines_in_index index search_word visited =
     (let key = lower search_word
      in if key \<in> visited then ([], visited)
         else (case fmlookup index key of
                 None \<Rightarrow> ([], insert key visited)
               | Some bucket \<Rightarrow> find_lines_loop index bucket (insert key visited) []))"
| "find_lines_loop index [] visited results = (results, visited)"
| "find_lines_loop index (line # rest) visited results =
     (case extract_see_reference line of
        None \<Rightarrow> find_lines_loop index rest visited (results @ [line])
      | Some see_ref \<Rightarrow>
          (if see_ref \<noteq> []
           then (case find_lines_in_index index see_ref visited of
                   (recursed, visited') \<Rightarrow>
                     (if recursed \<noteq> [] \<and> length recursed \<le> 2
                      then find_lines_loop index rest visited' (results @ recursed)
                      else if recursed = []
                      then find_lines_loop index rest visited' (results @ [line])
                      else find_lines_loop index rest visited' results))
           else find_lines_loop index rest visited (results @ [line])))"
  by pat_completeness auto

text \<open>Termination: every call that opens a bucket has added a key of the index to
  \<open>visited\<close>, and \<open>visited\<close> only grows, so the number of keys not yet visited decreases.\<close>

lemma visited_grows_dom:
  "find_lines_in_index_find_lines_loop_dom (Inl (index, w, v)) \<Longrightarrow>
     v \<subseteq> snd (find_lines_in_index index w v)"
  "find_lines_in_index_find_lines_loop_dom (Inr (index, ls, v, rs)) \<Longrightarrow>
     v \<subseteq> snd (find_lines_loop index ls v rs)"
proof (induction index w v and index ls v rs rule: find_lines_in_index_find_lines_loop.pinduct)
  case (1 index search_word visited)
  then show ?case
    by (auto simp: find_lines_in_index.psimps Let_def split: option.splits)
next
  case (2 index visited results)
  then show ?case by (simp add: find_lines_loop.psimps)
next
  case (3 index line rest visited results)
  show ?case
  proof (cases "extract_see_reference line")
    case None
    with 3(1,2) show ?thesis by (simp add: find_lines_loop.psimps)
  next
    case (Some see_ref)
    show ?thesis
    proof (cases "see_ref = []")
      case True
      with 3(1,7) Some show ?thesis by (simp add: find_lines_loop.psimps)
    next
      case False
      obtain recursed visited' where
        r: "find_lines_in_index index see_ref visited = (recursed, visited')"
        by force
      from 3(3) [OF Some False] r have sub: "visited \<subseteq> visited'" by simp
      have "visited' \<subseteq> snd (find_lines_loop index (line # rest) visited results)"
        using 3(4-6) [OF Some False r [symmetric]] 3(1) Some False r
        by (auto simp: find_lines_loop.psimps)
      with sub show ?thesis by blast
    qed
  qed
qed

lemma card_unvisited_less:
  "k \<in> fmdom' index \<Longrightarrow> k \<notin> v \<Longrightarrow>
     card (fmdom' index - insert k v) < card (fmdom' index - v)"
  by (rule psubset_card_mono) auto

lemma card_unvisited_mono:
  "v \<subseteq> v' \<Longrightarrow> card (fmdom' index - v') \<le> card (fmdom' index - v)"
  by (rule card_mono) auto

termination find_lines_in_index
proof (relation "inv_image (less_than <*lex*> less_than)
     (\<lambda>x. case x of
        Inl (index, w, v) \<Rightarrow> (card (fmdom' index - v), 0)
      | Inr (index, ls, v, rs) \<Rightarrow> (card (fmdom' index - v), Suc (length ls)))", goal_cases)
  case 1
  show ?case by (intro wf_inv_image wf_lex_prod wf_less_than)
next
  case (2 index search_word visited key bucket)
  then have "key \<in> fmdom' index" by (auto intro: fmdom'I)
  with 2 have "card (fmdom' index - insert key visited) < card (fmdom' index - visited)"
    by (intro card_unvisited_less) auto
  with 2 show ?case by simp
next
  case 3
  show ?case by simp
next
  case 4
  show ?case by simp
next
  case (5 index line rest visited results see_ref recursed visited')
  from 5(5) have "visited \<subseteq> snd (find_lines_in_index index see_ref visited)"
    by (rule visited_grows_dom)
  with 5(3) have "visited \<subseteq> visited'" by (metis snd_conv)
  from card_unvisited_mono [OF this, of index] show ?case by auto
next
  case (6 index line rest visited results see_ref recursed visited')
  from 6(6) have "visited \<subseteq> snd (find_lines_in_index index see_ref visited)"
    by (rule visited_grows_dom)
  with 6(3) have "visited \<subseteq> visited'" by (metis snd_conv)
  from card_unvisited_mono [OF this, of index] show ?case by auto
next
  case (7 index line rest visited results see_ref recursed visited')
  from 7(6) have "visited \<subseteq> snd (find_lines_in_index index see_ref visited)"
    by (rule visited_grows_dom)
  with 7(3) have "visited \<subseteq> visited'" by (metis snd_conv)
  from card_unvisited_mono [OF this, of index] show ?case by auto
next
  case 8
  show ?case by simp
qed

text \<open>
  The recursion as the interpreter runs it, with a bound on the depth of the call stack:
  \<open>find_lines_depth d\<close> may use \<open>d\<close> nested activations of \<open>find_lines_in_index\<close> and is
  \<open>None\<close> where one more would be needed, which is where the interpreter raises
  \<open>RecursionError\<close>.  The total function above is the value the recursion has where the
  stack suffices (\<open>depth_sound\<close>, \<open>depth_adequate\<close> below).
\<close>

fun find_lines_depth ::
    "nat \<Rightarrow> index \<Rightarrow> string \<Rightarrow> string set \<Rightarrow> (string list \<times> string set) option"
  and find_lines_loop_depth ::
    "nat \<Rightarrow> index \<Rightarrow> string list \<Rightarrow> string set \<Rightarrow> string list \<Rightarrow> (string list \<times> string set) option"
where
  "find_lines_depth 0 index search_word visited = None"
| "find_lines_depth (Suc d) index search_word visited =
     (let key = lower search_word
      in if key \<in> visited then Some ([], visited)
         else (case fmlookup index key of
                 None \<Rightarrow> Some ([], insert key visited)
               | Some bucket \<Rightarrow> find_lines_loop_depth d index bucket (insert key visited) []))"
| "find_lines_loop_depth d index [] visited results = Some (results, visited)"
| "find_lines_loop_depth d index (line # rest) visited results =
     (case extract_see_reference line of
        None \<Rightarrow> find_lines_loop_depth d index rest visited (results @ [line])
      | Some see_ref \<Rightarrow>
          (if see_ref \<noteq> []
           then (case find_lines_depth d index see_ref visited of
                   None \<Rightarrow> None
                 | Some (recursed, visited') \<Rightarrow>
                     (if recursed \<noteq> [] \<and> length recursed \<le> 2
                      then find_lines_loop_depth d index rest visited' (results @ recursed)
                      else if recursed = []
                      then find_lines_loop_depth d index rest visited' (results @ [line])
                      else find_lines_loop_depth d index rest visited' results))
           else find_lines_loop_depth d index rest visited (results @ [line])))"

text \<open>A call \<open>find_lines_in_index(index, word)\<close> of the endpoint, which starts with an empty
  set \<open>visited\<close> and reads the list only.\<close>

definition find_lines_call :: "env \<Rightarrow> index \<Rightarrow> string \<Rightarrow> error + string list" where
  "find_lines_call E index search_word =
     (case find_lines_depth (call_depth E) index search_word {} of
        None \<Rightarrow> Inl RecursionError
      | Some (results, visited) \<Rightarrow> Inr results)"

fun find_lines_after_colon_from_lines :: "string list \<Rightarrow> string \<Rightarrow> string list" where
  "find_lines_after_colon_from_lines [] search_phrase = []"
| "find_lines_after_colon_from_lines (line # lines) search_phrase =
     (if contains line ''::''
         \<and> contains (lower (split_once line ''::'' ! 1)) (lower search_phrase)
      then line # find_lines_after_colon_from_lines lines search_phrase
      else find_lines_after_colon_from_lines lines search_phrase)"

definition translation_has_letters :: "string \<Rightarrow> bool" where
  "translation_has_letters line \<longleftrightarrow>
     (if contains line ''::''
      then re_search [One ascii_letter] (strip (split_once line ''::'' ! 1)) \<noteq> None
      else True)"

section \<open>The translation endpoint\<close>

record response =
  input_word :: string
  cleaned_word :: string
  translations_list :: "string list"

text \<open>The loops of \<open>translate_word_api\<close>, each with the list it appends to.\<close>

fun add_direct :: "string \<Rightarrow> string list \<Rightarrow> string list \<Rightarrow> string list" where
  "add_direct label [] results = results"
| "add_direct label (line # lines) results =
     add_direct label lines
       (if translation_has_letters line then results @ [label @ line] else results)"

fun add_lemma_lines :: "string \<Rightarrow> string list \<Rightarrow> string list \<Rightarrow> string list" where
  "add_lemma_lines label [] results = results"
| "add_lemma_lines label (line # lines) results =
     add_lemma_lines label lines
       (if translation_has_letters line
        then (let res_line = label @ line
              in if res_line \<notin> set results then results @ [res_line] else results)
        else results)"

fun add_lemmas ::
    "env \<Rightarrow> string \<Rightarrow> index \<Rightarrow> string list \<Rightarrow> string list \<Rightarrow> error + string list" where
  "add_lemmas E label index [] results = Inr results"
| "add_lemmas E label index (lemma0 # lemmas) results =
     (case find_lines_call E index lemma0 of
        Inl e \<Rightarrow> Inl e
      | Inr lemma_matches \<Rightarrow>
          add_lemmas E label index lemmas (add_lemma_lines label lemma_matches results))"

fun add_reverse :: "string \<Rightarrow> string list \<Rightarrow> string list \<Rightarrow> string list" where
  "add_reverse rev_label [] reverse_results = reverse_results"
| "add_reverse rev_label (line # lines) reverse_results =
     add_reverse rev_label lines
       (if translation_has_letters line
        then (let parts = split_once line ''::'';
                  swapped = (if length parts = 2
                             then strip (parts ! 1) @ '' :: '' @ strip (parts ! 0)
                             else line)
              in reverse_results @ [rev_label @ '' '' @ swapped])
        else reverse_results)"

definition input_lang :: "env \<Rightarrow> string \<Rightarrow> string" where
  "input_lang E cleaned =
     (if cleaned |\<in>| fmdom (en_fr_index E) then ''EN''
      else if cleaned |\<in>| fmdom (fr_en_index E) then ''FR''
      else ''EN'')"

text \<open>The direct and the lemmatized matches: the list \<open>results\<close> as it is when the test
  \<open>if not results\<close> is reached, or the error that was raised before.\<close>

definition forward_results :: "env \<Rightarrow> string \<Rightarrow> error + string list" where
  "forward_results E cleaned =
     (case find_lines_call E (en_fr_index E) cleaned of
        Inl e \<Rightarrow> Inl e
      | Inr direct_matches_en \<Rightarrow>
     (case find_lines_call E (fr_en_index E) cleaned of
        Inl e \<Rightarrow> Inl e
      | Inr direct_matches_fr \<Rightarrow>
     (let results = add_direct ''EN -> FR: '' direct_matches_en [];
          results = add_direct ''FR -> EN: '' direct_matches_fr results
      in case lemmatize_word_english E cleaned of
           Inl e \<Rightarrow> Inl e
         | Inr lemmas_en \<Rightarrow>
     (case add_lemmas E ''EN -> FR: '' (en_fr_index E) lemmas_en results of
        Inl e \<Rightarrow> Inl e
      | Inr results \<Rightarrow>
     (case lemmatize_word_french E cleaned of
        Inl e \<Rightarrow> Inl e
      | Inr lemmas_fr \<Rightarrow>
          add_lemmas E ''FR -> EN: '' (fr_en_index E) lemmas_fr results)))))"

definition reverse_search :: "env \<Rightarrow> string \<Rightarrow> string list" where
  "reverse_search E cleaned =
     (let reverse_results = [];
          rev_label = (if input_lang E cleaned = ''EN'' then ''EN -> FR:'' else ''FR -> EN:'');
          reverse_matches_en = find_lines_after_colon_from_lines (EN_FR_LINES E) cleaned;
          reverse_results = add_reverse rev_label reverse_matches_en reverse_results;
          reverse_matches_fr = find_lines_after_colon_from_lines (FR_EN_LINES E) cleaned
      in add_reverse rev_label reverse_matches_fr reverse_results)"

text \<open>The list \<open>results\<close> as it enters the final loop.\<close>

definition collect_results :: "env \<Rightarrow> string \<Rightarrow> error + string list" where
  "collect_results E cleaned =
     (case forward_results E cleaned of
        Inl e \<Rightarrow> Inl e
      | Inr results \<Rightarrow>
          Inr (if results = [] then results @ reverse_search E cleaned else results))"

definition clean_result :: "string \<Rightarrow> string" where
  "clean_result res = strip (remove_phonetics (remove_extra_spaces res))"

fun dedup_loop :: "string list \<Rightarrow> string set \<Rightarrow> string list \<Rightarrow> string list" where
  "dedup_loop [] seen deduped_results = deduped_results"
| "dedup_loop (res # results) seen deduped_results =
     (let res_clean = clean_result res
      in if res_clean \<notin> seen
         then dedup_loop results (insert res_clean seen) (deduped_results @ [res_clean])
         else dedup_loop results seen deduped_results)"

definition normalize :: "string list \<Rightarrow> string list" where
  "normalize results = dedup_loop results {} []"

definition translate_word_api :: "env \<Rightarrow> string \<Rightarrow> error + response" where
  "translate_word_api E word =
     (let cleaned = clean_input word
      in case collect_results E cleaned of
           Inl e \<Rightarrow> Inl e
         | Inr results \<Rightarrow>
             (let deduped_results = normalize results
              in Inr \<lparr>input_word = word, cleaned_word = cleaned,
                      translations_list = (if deduped_results \<noteq> [] then deduped_results
                                           else [''Translation not found.''])\<rparr>))"

section \<open>Input cleaning\<close>

text \<open>Removing one prefix, if it is there: the step \<open>clean_input\<close> makes for the marker
  \<open>to\<close> and then for each article.\<close>

definition remove_prefix :: "string \<Rightarrow> string \<Rightarrow> string" where
  "remove_prefix p s = (if startswith s p then drop (length p) s else s)"

lemma remove_prefix_append: "remove_prefix p (p @ s) = s"
  by (simp add: remove_prefix_def startswith_def)

lemma remove_prefix_cases: "remove_prefix p s = s \<or> s = p @ remove_prefix p s"
  by (simp add: remove_prefix_def startswith_def) (metis append_take_drop_id)

text \<open>
  C3, as the code has it.  The loop over the four articles has no \<open>break\<close>: each
  article is tested once, in the order \<open>le\<close>, \<open>la\<close>, \<open>les\<close>, \<open>l'\<close>, against the word as the
  earlier tests left it, and is removed where it is a prefix.  An input that begins
  \<open>le la\<close> therefore loses both articles.
\<close>

theorem clean_input_tests_each_article_once:
  "clean_input w =
     remove_prefix (''l'' @ [CHR 0x27]) (remove_prefix ''les '' (remove_prefix ''la ''
       (remove_prefix ''le '' (remove_prefix ''to '' (lower (strip w))))))"
proof -
  have step: "(\<lambda>article word.
      if startswith word article then drop (length article) word else word) = remove_prefix"
    by (intro ext) (simp add: remove_prefix_def)
  have marker: "(if startswith s ''to '' then drop 3 s else s) = remove_prefix ''to '' s" for s
    by (simp add: remove_prefix_def numeral_3_eq_3)
  show ?thesis
    unfolding clean_input_def Let_def step marker FRENCH_ARTICLES_def by simp
qed

text \<open>The claim of C3 that only one article is removed fails on \<open>le la chat\<close>.\<close>

theorem clean_input_le_la_counterexample:
  "clean_input ''le la chat'' = ''chat'' \<and> clean_input ''le la chat'' \<noteq> ''la chat''"
  by code_simp

section \<open>Normalizing one line\<close>

text \<open>
  C4, as the code has it.  The annotation \<open>/fo.net.iks/\<close> is removed and the space on
  each side of it stays: whitespace is collapsed only where it follows \<open>}\<close>, and that
  step runs before the annotation is removed.  The cleaned line has two spaces before
  \<open>translation\<close>.
\<close>

theorem normalize_scenario_line:
  "normalize [''word {} :: /fo.net.iks/ translation''] = [''word {} ::  translation'']"
  by code_simp

theorem normalize_scenario_line_counterexample:
  "normalize [''word {} :: /fo.net.iks/ translation''] \<noteq> [''word {} :: translation'']"
  by code_simp

section \<open>The dictionary index\<close>

lemma not_space_brace [simp]: "\<not> py_isspace CHR ''{''"
  by (simp add: py_isspace_def)

lemma rx_StarG_only: "rx [StarG p] s i g = Some (i + length (takeWhile p s), g)"
  by (induction s arbitrary: i) auto

text \<open>Auxiliary notions for the pattern of \<open>build_index\<close>: \<open>brace_next s\<close> holds when \<open>s\<close>
  is whitespace followed by \<open>{\<close>, and \<open>headword_end s\<close> is the first position from which that
  holds, the place where the lazy group of the pattern stops.\<close>

definition brace_next :: "string \<Rightarrow> bool" where
  "brace_next s = (case dropWhile py_isspace s of [] \<Rightarrow> False | c # _ \<Rightarrow> c = CHR ''{'')"

lemma rx_spaces_brace:
  "rx [StarG py_isspace, One (lit CHR ''{'')] s i g =
     (if brace_next s then Some (Suc (i + length (takeWhile py_isspace s)), g) else None)"
  by (induction s arbitrary: i) (auto simp: brace_next_def lit_def)

fun headword_end :: "string \<Rightarrow> nat option" where
  "headword_end [] = None"
| "headword_end (c # cs) =
     (if brace_next (c # cs) then Some 0 else map_option Suc (headword_end cs))"

lemma rx_close_spaces_brace:
  "rx [GClose, StarG py_isspace, One (lit CHR ''{'')] s i (a, b) =
     (if brace_next s then Some (Suc (i + length (takeWhile py_isspace s)), a, i) else None)"
  by (subst rx.simps) (simp add: rx_spaces_brace del: rx.simps)

lemma rx_headword_tail:
  "\<forall>c\<in>set s. dot c \<Longrightarrow>
     rx [StarL dot, GClose, StarG py_isspace, One (lit CHR ''{'')] s i (a, b) =
       map_option (\<lambda>j. (Suc (i + j + length (takeWhile py_isspace (drop j s))), a, i + j))
         (headword_end s)"
proof (induction s arbitrary: i)
  case Nil
  have "rx [StarL dot, GClose, StarG py_isspace, One (lit CHR ''{'')] [] i (a, b) =
      rx [GClose, StarG py_isspace, One (lit CHR ''{'')] [] i (a, b)"
    by (subst rx.simps) (rule refl)
  then show ?case by (simp add: rx_close_spaces_brace brace_next_def del: rx.simps)
next
  case (Cons c cs)
  have "rx [StarL dot, GClose, StarG py_isspace, One (lit CHR ''{'')] (c # cs) i (a, b) =
      (case rx [GClose, StarG py_isspace, One (lit CHR ''{'')] (c # cs) i (a, b) of
         Some m \<Rightarrow> Some m
       | None \<Rightarrow>
           (if dot c
            then rx [StarL dot, GClose, StarG py_isspace, One (lit CHR ''{'')] cs (Suc i) (a, b)
            else None))"
    by (subst rx.simps) (rule refl)
  with Cons show ?case
    by (simp add: rx_close_spaces_brace option.map_comp comp_def del: rx.simps)
qed

lemma re_match_headword:
  assumes "CHR 0x0A \<notin> set l"
  shows "re_match headword_pattern l =
     map_option (\<lambda>j. (Suc (j + length (takeWhile py_isspace (drop j l))), take j l))
       (headword_end l)"
proof -
  from assms have "\<forall>c\<in>set l. dot c" by (auto simp: dot_def)
  from rx_headword_tail [OF this, of 0 0 0] show ?thesis
    by (simp add: re_match_def headword_pattern_def split: option.splits)
qed

lemma brace_next_takeWhile:
  "brace_next s \<Longrightarrow> takeWhile (\<lambda>c. c \<noteq> CHR ''{'') s = takeWhile py_isspace s"
  by (induction s) (auto simp: brace_next_def split: if_splits)

lemma brace_next_mem:
  assumes "brace_next s"
  shows "CHR ''{'' \<in> set s"
proof -
  from assms obtain t where "dropWhile py_isspace s = CHR ''{'' # t"
    by (auto simp: brace_next_def split: list.splits)
  then have "CHR ''{'' \<in> set (dropWhile py_isspace s)" by simp
  then show ?thesis by (rule set_dropWhileD)
qed

lemma headword_end_None: "headword_end s = None \<longleftrightarrow> CHR ''{'' \<notin> set s"
proof (induction s)
  case Nil
  show ?case by simp
next
  case (Cons c cs)
  show ?case
  proof (cases "brace_next (c # cs)")
    case True
    with brace_next_mem [OF True] show ?thesis by simp
  next
    case False
    then have "c \<noteq> CHR ''{''" by (auto simp: brace_next_def)
    with False Cons show ?thesis by simp
  qed
qed

lemma headword_end_Some:
  "headword_end s = Some j \<Longrightarrow>
     takeWhile (\<lambda>c. c \<noteq> CHR ''{'') s = take j s @ takeWhile py_isspace (drop j s)"
proof (induction s arbitrary: j)
  case Nil
  then show ?case by simp
next
  case (Cons c cs)
  show ?case
  proof (cases "brace_next (c # cs)")
    case True
    with Cons.prems have "j = 0" by simp
    with brace_next_takeWhile [OF True] show ?thesis by simp
  next
    case False
    then have c: "c \<noteq> CHR ''{''" by (auto simp: brace_next_def)
    from False Cons.prems obtain j' where j: "j = Suc j'" "headword_end cs = Some j'"
      by auto
    from Cons.IH [OF j(2)] c j(1) show ?thesis by simp
  qed
qed

lemma strip_append_spaces:
  assumes "\<forall>c\<in>set ws. py_isspace c"
  shows "strip (x @ ws) = strip x"
proof -
  from assms have ws: "dropWhile py_isspace ws = []" by simp
  from assms have rws: "dropWhile py_isspace (rev ws @ y) = dropWhile py_isspace y" for y
    by (simp add: dropWhile_append)
  show ?thesis
  proof (cases "\<forall>c\<in>set x. py_isspace c")
    case True
    then have "dropWhile py_isspace x = []" by simp
    with True ws show ?thesis
      by (simp add: strip_def dropWhile_append del: dropWhile_eq_Nil_conv)
  next
    case False
    then have "dropWhile py_isspace (x @ ws) = dropWhile py_isspace x @ ws"
      by (auto simp: dropWhile_append)
    then show ?thesis by (simp add: strip_def rws)
  qed
qed

text \<open>The key of a line, in the words of the specification: the text before the first
  \<open>{\<close>, trimmed of surrounding whitespace and lowercased.\<close>

definition headword_key :: "string \<Rightarrow> string" where
  "headword_key line = lower (strip (takeWhile (\<lambda>c. c \<noteq> CHR ''{'') line))"

lemma re_match_headword_None:
  "CHR 0x0A \<notin> set l \<Longrightarrow> re_match headword_pattern l = None \<longleftrightarrow> CHR ''{'' \<notin> set l"
  by (simp add: re_match_headword headword_end_None)

lemma re_match_headword_Some:
  assumes "CHR 0x0A \<notin> set l" "re_match headword_pattern l = Some (e, grp)"
  shows "CHR ''{'' \<in> set l \<and> lower (strip grp) = headword_key l"
proof -
  from assms obtain j where j: "headword_end l = Some j" "grp = take j l"
    by (auto simp: re_match_headword)
  have "\<forall>c\<in>set (takeWhile py_isspace (drop j l)). py_isspace c"
    by (auto dest: set_takeWhileD)
  from strip_append_spaces [OF this, of "take j l"] headword_end_Some [OF j(1)] j(2)
  have "lower (strip grp) = headword_key l" by (simp add: headword_key_def)
  moreover from j(1) have "CHR ''{'' \<in> set l"
    using headword_end_None [of l] by simp
  ultimately show ?thesis by simp
qed

lemma build_index_loop_lookup:
  assumes "\<forall>l\<in>set lines. CHR 0x0A \<notin> set l"
  shows "fmlookup (build_index_loop index lines) k =
     (let new = filter (\<lambda>l. CHR ''{'' \<in> set l \<and> headword_key l = k) lines
      in case fmlookup index k of
           None \<Rightarrow> (if new = [] then None else Some new)
         | Some b \<Rightarrow> Some (b @ new))"
  using assms
proof (induction lines arbitrary: index)
  case Nil
  show ?case by (simp split: option.splits)
next
  case (Cons line lines)
  then have nl: "CHR 0x0A \<notin> set line" and rest: "\<forall>l\<in>set lines. CHR 0x0A \<notin> set l"
    by simp_all
  show ?case
  proof (cases "re_match headword_pattern line")
    case None
    with re_match_headword_None [OF nl] have "CHR ''{'' \<notin> set line" by simp
    with None Cons.IH [OF rest] show ?thesis by simp
  next
    case (Some m)
    obtain e grp where m: "m = (e, grp)" by (cases m)
    from re_match_headword_Some [OF nl Some [unfolded m]]
    have br: "CHR ''{'' \<in> set line" and key: "lower (strip grp) = headword_key line"
      by simp_all
    show ?thesis
      using Some m br key Cons.IH [OF rest]
      by (auto simp: Let_def split: option.splits)
  qed
qed

lemma set_strip: "set (strip s) \<subseteq> set s"
  by (auto simp: strip_def dest!: set_dropWhileD)

lemma file_lines_shape:
  "CHR 0x0A \<notin> set cur \<Longrightarrow> l \<in> set (file_lines content cur) \<Longrightarrow>
     \<exists>x. CHR 0x0A \<notin> set x \<and> (l = x \<or> l = x @ [CHR 0x0A])"
proof (induction content cur rule: file_lines.induct)
  case (1 cur)
  then show ?case by (auto split: if_splits)
next
  case (2 c cs cur)
  show ?case
  proof (cases "c = CHR 0x0A")
    case True
    with 2(1) [OF True _ ] 2(4,5) show ?thesis by auto
  next
    case nl: False
    show ?thesis
    proof (cases "c = CHR 0x0D")
      case True
      with nl 2(2) [OF nl True] 2(4,5) show ?thesis by auto
    next
      case False
      with nl 2(3) [OF nl False] 2(4,5) show ?thesis by auto
    qed
  qed
qed

lemma load_lines_no_newline:
  assumes "l \<in> set (load_lines file)"
  shows "CHR 0x0A \<notin> set l"
proof -
  from assms obtain content raw where raw: "raw \<in> set (file_lines content [])" "l = strip raw"
    by (auto simp: load_lines_def split: option.splits)
  from file_lines_shape [OF _ raw(1)] obtain x where
    x: "CHR 0x0A \<notin> set x" "raw = x \<or> raw = x @ [CHR 0x0A]"
    by auto
  have "strip (x @ [CHR 0x0A]) = strip x"
    by (rule strip_append_spaces) (simp add: py_isspace_def)
  with x(2) raw(2) have "l = strip x" by auto
  with set_strip [of x] x(1) show ?thesis by auto
qed

text \<open>
  C8.  The lines are those of a file read line by line, so none of them holds a newline
  character (\<open>load_lines_no_newline\<close>).  For such lines the bucket of a key holds the
  lines that contain \<open>{\<close> and have that key, in their order in the file; a key no line
  has is absent from the index.  So a line without \<open>{\<close> is in no bucket, every entry of
  a bucket is a line with \<open>{\<close>, and no line makes \<open>build_index\<close> fail.
\<close>

theorem build_index_buckets:
  assumes "\<forall>l\<in>set lines. CHR 0x0A \<notin> set l"
  shows "fmlookup (build_index lines) k =
     (let bucket = filter (\<lambda>l. CHR ''{'' \<in> set l \<and> headword_key l = k) lines
      in if bucket = [] then None else Some bucket)"
  using build_index_loop_lookup [OF assms, of fmempty k]
  by (simp add: build_index_def)


theorem build_index_buckets_witness:
  "fmlookup (build_index [''Cat {n} :: chat'', ''no brace here'', ''cat  {v} :: x'']) ''cat'' =
     Some [''Cat {n} :: chat'', ''cat  {v} :: x'']"
proof -
  have nl: "\<forall>l\<in>set [''Cat {n} :: chat'', ''no brace here'', ''cat  {v} :: x''].
      CHR 0x0A \<notin> set l"
    by simp
  have keys: "headword_key ''Cat {n} :: chat'' = ''cat''"
    "headword_key ''cat  {v} :: x'' = ''cat''"
    by code_simp+
  from build_index_buckets [OF nl, of "''cat''"] keys show ?thesis by simp
qed

section \<open>The cross-reference resolver\<close>

declare find_lines_in_index.simps [simp del]


lemma visited_grows:
  "v \<subseteq> snd (find_lines_in_index index w v)"
  "v' \<subseteq> snd (find_lines_loop index ls v' rs)"
proof (induction index w v and index ls v' rs rule: find_lines_in_index_find_lines_loop.induct)
  case (1 index search_word visited)
  then show ?case
    by (auto simp: find_lines_in_index.simps Let_def split: option.splits)
next
  case (2 index visited results)
  show ?case by simp
next
  case (3 index line rest visited results)
  show ?case
  proof (cases "extract_see_reference line")
    case None
    with 3(1) show ?thesis by simp
  next
    case (Some see_ref)
    show ?thesis
    proof (cases "see_ref = []")
      case True
      with 3(6) Some show ?thesis by simp
    next
      case False
      obtain recursed visited' where
        r: "find_lines_in_index index see_ref visited = (recursed, visited')"
        by force
      from 3(2) [OF Some False] r have sub: "visited \<subseteq> visited'" by simp
      have "visited' \<subseteq> snd (find_lines_loop index (line # rest) visited results)"
        using 3(3-5) [OF Some False r [symmetric]] Some False r by auto
      with sub show ?thesis by blast
    qed
  qed
qed

lemma find_lines_loop_results:
  "find_lines_loop index ls v rs =
     (rs @ fst (find_lines_loop index ls v []), snd (find_lines_loop index ls v []))"
proof (induction ls arbitrary: v rs)
  case Nil
  show ?case by simp
next
  case (Cons line rest)
  note IH = Cons.IH
  show ?case
  proof (cases "extract_see_reference line")
    case None
    with IH [of v "rs @ [line]"] IH [of v "[line]"] show ?thesis by simp
  next
    case (Some see_ref)
    show ?thesis
    proof (cases "see_ref = []")
      case True
      with Some IH [of v "rs @ [line]"] IH [of v "[line]"] show ?thesis by simp
    next
      case False
      obtain recursed visited' where
        r: "find_lines_in_index index see_ref v = (recursed, visited')"
        by force
      show ?thesis
        using Some False r IH [of visited' "rs @ recursed"] IH [of visited' recursed]
          IH [of visited' "rs @ [line]"] IH [of visited' "[line]"] IH [of visited' rs]
        by simp
    qed
  qed
qed

lemma find_lines_loop_append:
  "find_lines_loop index (pre @ post) v rs =
     (case find_lines_loop index pre v rs of (rs1, v1) \<Rightarrow> find_lines_loop index post v1 rs1)"
proof (induction pre arbitrary: v rs)
  case Nil
  show ?case by simp
next
  case (Cons line rest)
  show ?case
    by (simp add: Cons.IH split: option.splits prod.splits)
qed

text \<open>The index of the third scenario of the specification, and an index whose two
  redirects form a cycle.\<close>

definition scenario_index :: index where
  "scenario_index = build_index [''apple {} :: SEE: fruit ::'', ''fruit {} :: fruit-fr'']"

definition cyclic_index :: index where
  "cyclic_index = build_index [''a {x} :: SEE: b ::'', ''b {x} :: SEE: a ::'']"

text \<open>
  C1.  Let the bucket of a headword not yet visited hold a line with a redirect (a
  reference that is neither missing nor empty), after the lines \<open>pre\<close> and before the
  lines \<open>post\<close>.  The result for the headword is what \<open>pre\<close> gave, then the contribution
  of the redirect line, then what \<open>post\<close> gives; the contribution is the recursive result
  when that has one or two lines, the redirect line itself when the recursive result is
  empty, and nothing when it has more than two lines.
\<close>

theorem redirect_splice_rule:
  assumes bucket: "fmlookup index (lower headword) = Some (pre @ line # post)"
    and fresh: "lower headword \<notin> visited"
    and see: "extract_see_reference line = Some see_ref" "see_ref \<noteq> []"
    and before: "find_lines_loop index pre (insert (lower headword) visited) [] = (before, v1)"
    and rec: "find_lines_in_index index see_ref v1 = (recursed, v2)"
    and after: "find_lines_loop index post v2 [] = (after, v3)"
  shows "\<exists>contribution.
      find_lines_in_index index headword visited = (before @ contribution @ after, v3)
    \<and> (recursed \<noteq> [] \<and> length recursed \<le> 2 \<longrightarrow> contribution = recursed)
    \<and> (recursed = [] \<longrightarrow> contribution = [line])
    \<and> (2 < length recursed \<longrightarrow> contribution = [])"
proof -
  define contribution where "contribution =
    (if recursed \<noteq> [] \<and> length recursed \<le> 2 then recursed
     else if recursed = [] then [line] else [])"
  have top: "find_lines_in_index index headword visited =
      find_lines_loop index (pre @ line # post) (insert (lower headword) visited) []"
    using bucket fresh by (simp add: find_lines_in_index.simps)
  have step: "find_lines_loop index (line # post) v1 before =
      find_lines_loop index post v2 (before @ contribution)"
    using see rec by (simp add: contribution_def)
  have "find_lines_loop index post v2 (before @ contribution) =
      ((before @ contribution) @ after, v3)"
    using find_lines_loop_results [of index post v2 "before @ contribution"] after by simp
  with top step before have
    "find_lines_in_index index headword visited = (before @ contribution @ after, v3)"
    by (simp add: find_lines_loop_append)
  moreover have "recursed \<noteq> [] \<and> length recursed \<le> 2 \<longrightarrow> contribution = recursed"
    by (simp add: contribution_def)
  moreover have "recursed = [] \<longrightarrow> contribution = [line]"
    by (simp add: contribution_def)
  moreover have "2 < length recursed \<longrightarrow> contribution = []"
    by (auto simp: contribution_def)
  ultimately show ?thesis by blast
qed

theorem redirect_splice_rule_witness:
  "find_lines_in_index scenario_index ''Apple'' {} =
     ([''fruit {} :: fruit-fr''], {''apple'', ''fruit''})"
proof -
  have bucket: "fmlookup scenario_index (lower ''Apple'') =
      Some ([] @ ''apple {} :: SEE: fruit ::'' # [])"
    by code_simp
  have fresh: "lower ''Apple'' \<notin> {}" by simp
  have see: "extract_see_reference ''apple {} :: SEE: fruit ::'' = Some ''fruit''"
    by code_simp
  have ne: "''fruit'' \<noteq> []" by simp
  have before: "find_lines_loop scenario_index [] (insert (lower ''Apple'') {}) [] =
      ([], insert (lower ''Apple'') {})"
    by simp
  have rec: "find_lines_in_index scenario_index ''fruit'' (insert (lower ''Apple'') {}) =
      ([''fruit {} :: fruit-fr''], {''apple'', ''fruit''})"
    by code_simp
  have after: "find_lines_loop scenario_index [] {''apple'', ''fruit''} [] =
      ([], {''apple'', ''fruit''})"
    by simp
  from redirect_splice_rule [OF bucket fresh see ne before rec after]
  show ?thesis by auto
qed

text \<open>The run with a bound on the depth returns the value of the total function as soon
  as the bound exceeds the number of keys of the index that are not yet visited.\<close>

lemma depth_adequate:
  "card (fmdom' index - v) < d \<Longrightarrow>
     find_lines_depth d index w v = Some (find_lines_in_index index w v)"
  "card (fmdom' index - v') < d' \<Longrightarrow>
     find_lines_loop_depth d' index ls v' rs = Some (find_lines_loop index ls v' rs)"
proof (induction index w v and index ls v' rs arbitrary: d and d'
    rule: find_lines_in_index_find_lines_loop.induct)
  case (1 index search_word visited)
  from 1(2) obtain e where d: "d = Suc e" by (cases d) auto
  show ?case
  proof (cases "lower search_word \<in> visited")
    case True
    then show ?thesis by (simp add: d find_lines_in_index.simps)
  next
    case False
    show ?thesis
    proof (cases "fmlookup index (lower search_word)")
      case None
      with False show ?thesis by (simp add: d find_lines_in_index.simps)
    next
      case (Some bucket)
      then have "lower search_word \<in> fmdom' index" by (auto intro: fmdom'I)
      with False have
        "card (fmdom' index - insert (lower search_word) visited) < card (fmdom' index - visited)"
        by (intro card_unvisited_less) auto
      with 1(2) d have "card (fmdom' index - insert (lower search_word) visited) < e" by simp
      from 1(1) [OF refl False Some this] False Some show ?thesis
        by (simp add: d find_lines_in_index.simps)
    qed
  qed
next
  case (2 index visited results)
  show ?case by simp
next
  case (3 index line rest visited results)
  show ?case
  proof (cases "extract_see_reference line")
    case None
    with 3(1) [OF None 3(7)] show ?thesis by simp
  next
    case (Some see_ref)
    show ?thesis
    proof (cases "see_ref = []")
      case True
      with 3(6) [OF Some _ 3(7)] Some show ?thesis by simp
    next
      case False
      obtain recursed visited' where
        r: "find_lines_in_index index see_ref visited = (recursed, visited')"
        by force
      have "visited \<subseteq> visited'"
        using visited_grows(1) [of visited index see_ref] r by simp
      from card_unvisited_mono [OF this, of index] 3(7)
      have c: "card (fmdom' index - visited') < d'" by simp
      from 3(2) [OF Some False 3(7)] r
      have inner: "find_lines_depth d' index see_ref visited = Some (recursed, visited')"
        by simp
      have short: "recursed \<noteq> [] \<and> length recursed \<le> 2 \<Longrightarrow>
          find_lines_loop_depth d' index rest visited' (results @ recursed) =
            Some (find_lines_loop index rest visited' (results @ recursed))"
        using 3(3) [OF Some False r [symmetric] _ c] by simp
      have none: "recursed = [] \<Longrightarrow>
          find_lines_loop_depth d' index rest visited' (results @ [line]) =
            Some (find_lines_loop index rest visited' (results @ [line]))"
        using 3(4) [OF Some False r [symmetric] _ _ c] by simp
      have many: "\<not> (recursed \<noteq> [] \<and> length recursed \<le> 2) \<Longrightarrow> recursed \<noteq> [] \<Longrightarrow>
          find_lines_loop_depth d' index rest visited' results =
            Some (find_lines_loop index rest visited' results)"
        using 3(5) [OF Some False r [symmetric] _ _ c] by simp
      show ?thesis
        using Some False r inner short none many by simp
    qed
  qed
qed


text \<open>Whatever the bound, a run that returns gives the value of the total function.\<close>

lemma depth_sound:
  "find_lines_depth d index w v = Some r \<Longrightarrow> r = find_lines_in_index index w v"
  "find_lines_loop_depth d' index ls v' rs = Some r' \<Longrightarrow> r' = find_lines_loop index ls v' rs"
proof (induction index w v and index ls v' rs arbitrary: d r and d' r'
    rule: find_lines_in_index_find_lines_loop.induct)
  case (1 index search_word visited)
  from 1(2) obtain e where d: "d = Suc e" by (cases d) auto
  show ?case
  proof (cases "lower search_word \<in> visited")
    case True
    with 1(2) show ?thesis by (simp add: d find_lines_in_index.simps)
  next
    case False
    show ?thesis
    proof (cases "fmlookup index (lower search_word)")
      case None
      with False 1(2) show ?thesis by (simp add: d find_lines_in_index.simps)
    next
      case (Some bucket)
      with False 1(2) have
        "find_lines_loop_depth e index bucket (insert (lower search_word) visited) [] = Some r"
        by (simp add: d)
      from 1(1) [OF refl False Some this] False Some show ?thesis
        by (simp add: find_lines_in_index.simps)
    qed
  qed
next
  case (2 index visited results)
  then show ?case by simp
next
  case (3 index line rest visited results)
  show ?case
  proof (cases "extract_see_reference line")
    case None
    with 3(7) have "find_lines_loop_depth d' index rest visited (results @ [line]) = Some r'"
      by simp
    from 3(1) [OF None this] None show ?thesis by simp
  next
    case (Some see_ref)
    show ?thesis
    proof (cases "see_ref = []")
      case True
      with Some 3(7) have
        "find_lines_loop_depth d' index rest visited (results @ [line]) = Some r'"
        by simp
      from 3(6) [OF Some _ this] True Some show ?thesis by simp
    next
      case False
      from Some False 3(7) obtain recursed visited' where
        inner: "find_lines_depth d' index see_ref visited = Some (recursed, visited')"
        by (auto split: option.splits)
      from 3(2) [OF Some False inner] have
        r: "find_lines_in_index index see_ref visited = (recursed, visited')"
        by simp
      have short: "recursed \<noteq> [] \<and> length recursed \<le> 2 \<Longrightarrow>
          find_lines_loop_depth d' index rest visited' (results @ recursed) = Some r' \<Longrightarrow>
          r' = find_lines_loop index rest visited' (results @ recursed)"
        using 3(3) [OF Some False r [symmetric]] by simp
      have none: "recursed = [] \<Longrightarrow>
          find_lines_loop_depth d' index rest visited' (results @ [line]) = Some r' \<Longrightarrow>
          r' = find_lines_loop index rest visited' (results @ [line])"
        using 3(4) [OF Some False r [symmetric]] by simp
      have many: "\<not> (recursed \<noteq> [] \<and> length recursed \<le> 2) \<Longrightarrow> recursed \<noteq> [] \<Longrightarrow>
          find_lines_loop_depth d' index rest visited' results = Some r' \<Longrightarrow>
          r' = find_lines_loop index rest visited' results"
        using 3(5) [OF Some False r [symmetric]] by simp
      show ?thesis
        using Some False r inner 3(7) short none many by (simp split: if_splits)
    qed
  qed
qed

lemma find_lines_call_value:
  "find_lines_call E index w = Inr found \<Longrightarrow> found = fst (find_lines_in_index index w {})"
proof -
  assume "find_lines_call E index w = Inr found"
  then obtain visited where
    "find_lines_depth (call_depth E) index w {} = Some (found, visited)"
    by (auto simp: find_lines_call_def split: option.splits)
  from depth_sound(1) [OF this] show ?thesis by (metis fst_conv)
qed

text \<open>A chain of \<open>n\<close> redirects over distinct headwords: the line of \<open>a\<close> sends to \<open>aa\<close>, the
  line of \<open>aa\<close> to \<open>aaa\<close>, and so on.\<close>

definition chain_word :: "nat \<Rightarrow> string" where
  "chain_word i = replicate (Suc i) CHR ''a''"

definition chain_line :: "nat \<Rightarrow> string" where
  "chain_line i = chain_word i @ '' {} :: SEE: '' @ chain_word (Suc i) @ '' ::''"

definition redirect_chain :: "nat \<Rightarrow> string list" where
  "redirect_chain n = map chain_line [0..<n]"

lemma chain_word_inj: "chain_word i = chain_word j \<longleftrightarrow> i = j"
proof
  assume "chain_word i = chain_word j"
  then have "length (chain_word i) = length (chain_word j)" by simp
  then show "i = j" by (simp add: chain_word_def)
qed simp

lemma chain_word_chars: "set (chain_word i) = {CHR ''a''}"
  by (auto simp: chain_word_def)

lemma a_facts:
  "\<not> py_isspace CHR ''a''" "dot CHR ''a''" "py_lower_char CHR ''a'' = CHR ''a''"
  "\<not> lit_ignorecase CHR ''S'' CHR ''a''" "\<not> lit_ignorecase CHR ''S'' CHR '' ''"
  "\<not> lit_ignorecase CHR ''S'' CHR ''{''" "\<not> lit_ignorecase CHR ''S'' CHR ''}''"
  "\<not> lit_ignorecase CHR ''S'' CHR '':''"
  by code_simp+

lemma lower_chain_word: "lower (chain_word i) = chain_word i"
  by (simp add: lower_def chain_word_def a_facts)

lemma strip_chain_word: "strip (chain_word i) = chain_word i"
proof -
  have "dropWhile py_isspace (replicate n CHR ''a'') = replicate n CHR ''a''" for n
    by (cases n) (simp_all add: a_facts)
  then show ?thesis by (simp add: strip_def chain_word_def del: replicate_Suc)
qed

lemma headword_key_chain_line: "headword_key (chain_line i) = chain_word i"
proof -
  have "takeWhile (\<lambda>c. c \<noteq> CHR ''{'') (chain_line i) = chain_word i @ '' ''"
    by (simp add: chain_line_def takeWhile_append chain_word_chars)
  moreover have "strip (chain_word i @ '' '') = strip (chain_word i)"
    by (rule strip_append_spaces) (simp add: py_isspace_def)
  ultimately show ?thesis
    by (simp add: headword_key_def strip_chain_word lower_chain_word)
qed

lemma chain_line_brace: "CHR ''{'' \<in> set (chain_line i)"
  by (simp add: chain_line_def)

lemma chain_line_no_newline: "CHR 0x0A \<notin> set (chain_line i)"
  by (simp add: chain_line_def chain_word_chars)

lemma filter_chain:
  "filter (\<lambda>l. CHR ''{'' \<in> set l \<and> headword_key l = chain_word i) (redirect_chain n) =
     (if i < n then [chain_line i] else [])"
  by (induction n)
    (auto simp: redirect_chain_def headword_key_chain_line chain_line_brace chain_word_inj)

lemma lookup_chain:
  "fmlookup (build_index (redirect_chain n)) (chain_word i) =
     (if i < n then Some [chain_line i] else None)"
proof -
  have "\<forall>l\<in>set (redirect_chain n). CHR 0x0A \<notin> set l"
    by (auto simp: redirect_chain_def chain_line_no_newline)
  from build_index_loop_lookup [OF this, of fmempty "chain_word i"] show ?thesis
    by (simp add: build_index_def filter_chain)
qed


lemma re_match_see_None:
  "\<not> lit_ignorecase CHR ''S'' c \<Longrightarrow> re_match see_pattern (c # s) = None"
  by (simp add: re_match_def see_pattern_def)

lemma re_search_see_skip:
  "\<forall>c\<in>set pre. \<not> lit_ignorecase CHR ''S'' c \<Longrightarrow>
     re_search see_pattern (pre @ c # s) = re_search see_pattern (c # s)"
  by (induction pre) (simp_all add: re_match_see_None)

lemma rx_see_tail:
  "rx [StarL dot, GClose, StarG py_isspace, One (lit CHR '':''), One (lit CHR '':'')]
      (replicate k CHR ''a'' @ '' ::'') i (a0, b) =
     Some (i + k + 3, a0, i + k)"
proof (induction k arbitrary: i)
  case 0
  show ?case by (simp add: lit_def py_isspace_def)
next
  case (Suc k)
  have "rx [GClose, StarG py_isspace, One (lit CHR '':''), One (lit CHR '':'')]
      (CHR ''a'' # replicate k CHR ''a'' @ '' ::'') i (a0, b) = None"
    by (simp add: lit_def a_facts)
  moreover have
    "rx [StarL dot, GClose, StarG py_isspace, One (lit CHR '':''), One (lit CHR '':'')]
      (CHR ''a'' # replicate k CHR ''a'' @ '' ::'') i (a0, b) =
     (case rx [GClose, StarG py_isspace, One (lit CHR '':''), One (lit CHR '':'')]
        (CHR ''a'' # replicate k CHR ''a'' @ '' ::'') i (a0, b) of
        Some m \<Rightarrow> Some m
      | None \<Rightarrow>
          (if dot CHR ''a''
           then rx [StarL dot, GClose, StarG py_isspace, One (lit CHR '':''), One (lit CHR '':'')]
             (replicate k CHR ''a'' @ '' ::'') (Suc i) (a0, b)
           else None))"
    by (subst rx.simps) (rule refl)
  ultimately show ?case
    by (simp add: Suc.IH a_facts del: rx.simps)
qed

lemma re_match_see_chain:
  "re_match see_pattern (''SEE: '' @ replicate (Suc k) CHR ''a'' @ '' ::'') =
     Some (k + 9, replicate (Suc k) CHR ''a'')"
proof -
  have tail: "rx [StarL dot, GClose, StarG py_isspace, One (lit CHR '':''), One (lit CHR '':'')]
      (CHR ''a'' # replicate k CHR ''a'' @ '' ::'') i (a0, b) =
        Some (i + Suc k + 3, a0, i + Suc k)" for i a0 b
    using rx_see_tail [of "Suc k" i a0 b] by (simp del: rx.simps)
  have "rx see_pattern (''SEE: '' @ replicate (Suc k) CHR ''a'' @ '' ::'') 0 (0, 0) =
      Some (k + 9, 5, k + 6)"
    by (simp add: see_pattern_def lit_def lit_ignorecase_def a_facts py_isspace_def tail
        del: rx.simps(8,9))
  then show ?thesis by (simp add: re_match_def)
qed

lemma extract_see_reference_chain:
  "extract_see_reference (chain_line i) = Some (chain_word (Suc i))"
proof -
  have pre: "\<forall>c\<in>set (chain_word i @ '' {} :: ''). \<not> lit_ignorecase CHR ''S'' c"
    by (auto simp: chain_word_chars a_facts)
  have "chain_line i = (chain_word i @ '' {} :: '') @ CHR ''S'' #
      (''EE: '' @ replicate (Suc (Suc i)) CHR ''a'' @ '' ::'')"
    by (simp add: chain_line_def chain_word_def)
  then have "re_search see_pattern (chain_line i) =
      re_search see_pattern (''SEE: '' @ replicate (Suc (Suc i)) CHR ''a'' @ '' ::'')"
    using re_search_see_skip [OF pre] by simp
  also have "\<dots> = Some (Suc i + 9, replicate (Suc (Suc i)) CHR ''a'')"
    using re_match_see_chain [of "Suc i"] by simp
  finally show ?thesis
    using strip_chain_word [of "Suc i"]
    by (simp add: extract_see_reference_def chain_word_def del: replicate_Suc)
qed

lemma redirect_chain_overflows:
  "i + d \<le> n \<Longrightarrow> \<forall>j\<ge>i. chain_word j \<notin> v \<Longrightarrow>
     find_lines_depth d (build_index (redirect_chain n)) (chain_word i) v = None"
proof (induction d arbitrary: i v)
  case 0
  show ?case by simp
next
  case (Suc d)
  from Suc.prems have i: "i < n" and fresh: "chain_word i \<notin> v" by auto
  have "\<forall>j\<ge>Suc i. chain_word j \<notin> insert (chain_word i) v"
    using Suc.prems(2) by (auto simp: chain_word_inj)
  moreover from Suc.prems(1) have "Suc i + d \<le> n" by simp
  ultimately have "find_lines_depth d (build_index (redirect_chain n)) (chain_word (Suc i))
      (insert (chain_word i) v) = None"
    by (rule Suc.IH [rotated])
  moreover have "chain_word (Suc i) \<noteq> []" by (simp add: chain_word_def)
  ultimately show ?case
    using i fresh
    by (simp add: lower_chain_word lookup_chain extract_see_reference_chain)
qed

text \<open>
  C2, as the code has it.  A headword that is already in \<open>visited\<close> returns the empty list
  at once.  For every index, cyclic or not, the recursion returns a list as soon as the
  call stack may hold one activation more than the index has keys that are not yet
  visited: every activation that opens a bucket has added a key of the index to
  \<open>visited\<close> before, so no headword is expanded twice and a cycle costs no depth.  The
  list is the value of \<open>find_lines_in_index\<close>, a total function by its termination proof.
\<close>

theorem resolver_terminates:
  "(lower headword \<in> visited \<longrightarrow>
      find_lines_in_index index headword visited = ([], visited))
 \<and> (card (fmdom' index - visited) < depth \<longrightarrow>
      find_lines_depth depth index headword visited =
        Some (find_lines_in_index index headword visited))"
  by (simp add: depth_adequate(1) find_lines_in_index.simps)

theorem resolver_terminates_witness:
  "find_lines_depth 3 cyclic_index ''A'' {} = Some ([''b {x} :: SEE: a ::''], {''a'', ''b''})
 \<and> find_lines_in_index cyclic_index ''A'' {''a''} = ([], {''a''})"
proof -
  have "fmdom' cyclic_index = {''a'', ''b''}" by code_simp
  then have depth: "card (fmdom' cyclic_index - {}) < 3" by simp
  have visited: "lower ''A'' \<in> {''a''}" by code_simp
  have result: "find_lines_in_index cyclic_index ''A'' {} =
      ([''b {x} :: SEE: a ::''], {''a'', ''b''})"
    by code_simp
  from resolver_terminates [of "''A''" "{}" cyclic_index 3] depth result
    resolver_terminates [of "''A''" "{''a''}" cyclic_index 3] visited
  show ?thesis by simp
qed

definition chain_env :: env where
  "chain_env =
     \<lparr>EN_FR_LINES = redirect_chain 1000, FR_EN_LINES = [],
      wn_lemmatize = (\<lambda>w p. Inr w), nlp = (\<lambda>w. Inr [w]), str_hash = (\<lambda>w. 0),
      call_depth = 1000\<rparr>"

text \<open>The claim of C2 that the resolver returns a finite sequence for every index fails on
  a chain of 1000 redirects when the interpreter allows 1000 nested calls, which is the
  most it allows when its limit is not raised: the recursion is cut off, and so is the
  request.\<close>

theorem chain_of_1000_redirects_counterexample:
  "find_lines_depth 1000 (build_index (redirect_chain 1000)) ''a'' {} = None
 \<and> translate_word_api chain_env ''a'' = Inl RecursionError"
proof -
  have "chain_word 0 = ''a''" by (simp add: chain_word_def)
  with redirect_chain_overflows [of 0 1000 1000 "{}"] have
    cut: "find_lines_depth 1000 (build_index (redirect_chain 1000)) ''a'' {} = None"
    by simp
  have "clean_input ''a'' = ''a''" by code_simp
  with cut have "translate_word_api chain_env ''a'' = Inl RecursionError"
    by (simp add: translate_word_api_def collect_results_def forward_results_def
        find_lines_call_def en_fr_index_def chain_env_def)
  with cut show ?thesis by simp
qed

section \<open>The reverse fallback\<close>

text \<open>
  The fallback as the specification describes it, restricted as in the code to the lines
  that pass the letters test of the endpoint: the lines of both files, in file order,
  whose text after the first \<open>::\<close> holds the cleaned word whatever the case of its
  letters and has a letter; each with its two sides swapped around the first \<open>::\<close>,
  under the one label the language guess gives.
\<close>

definition swap_sides :: "string \<Rightarrow> string" where
  "swap_sides line =
     strip (split_once line ''::'' ! 1) @ '' :: '' @ strip (split_once line ''::'' ! 0)"

definition guessed_label :: "env \<Rightarrow> string \<Rightarrow> string" where
  "guessed_label E cleaned =
     (if cleaned |\<in>| fmdom (en_fr_index E) then ''EN -> FR:''
      else if cleaned |\<in>| fmdom (fr_en_index E) then ''FR -> EN:''
      else ''EN -> FR:'')"

definition spec_reverse_fallback :: "env \<Rightarrow> string \<Rightarrow> string list" where
  "spec_reverse_fallback E cleaned =
     map (\<lambda>line. guessed_label E cleaned @ '' '' @ swap_sides line)
       (filter (\<lambda>line. contains line ''::''
                  \<and> contains (lower (split_once line ''::'' ! 1)) (lower cleaned)
                  \<and> translation_has_letters line)
          (EN_FR_LINES E @ FR_EN_LINES E))"

lemma add_direct_eq:
  "add_direct label lines results =
     results @ map ((@) label) (filter translation_has_letters lines)"
  by (induction lines arbitrary: results) auto

lemma split_once_length: "contains line sep \<Longrightarrow> length (split_once line sep) = 2"
  by (auto simp: contains_def split_once_def)

lemma find_lines_after_colon_eq:
  "find_lines_after_colon_from_lines lines w =
     filter (\<lambda>line. contains line ''::''
               \<and> contains (lower (split_once line ''::'' ! 1)) (lower w)) lines"
  by (induction lines) auto

lemma add_reverse_eq:
  "\<forall>line\<in>set lines. contains line ''::'' \<Longrightarrow>
     add_reverse rev_label lines acc =
       acc @ map (\<lambda>line. rev_label @ '' '' @ swap_sides line)
               (filter translation_has_letters lines)"
  by (induction lines arbitrary: acc)
    (auto simp: Let_def swap_sides_def split_once_length)

lemma rev_label_eq:
  "(if input_lang E cleaned = ''EN'' then ''EN -> FR:'' else ''FR -> EN:'') =
     guessed_label E cleaned"
  by (simp add: input_lang_def guessed_label_def)

lemma add_reverse_matches:
  "add_reverse rev_label (find_lines_after_colon_from_lines lines w) acc =
     acc @ map (\<lambda>line. rev_label @ '' '' @ swap_sides line)
             (filter (\<lambda>line. contains line ''::''
                        \<and> contains (lower (split_once line ''::'' ! 1)) (lower w)
                        \<and> translation_has_letters line) lines)"
proof -
  have "\<forall>line\<in>set (find_lines_after_colon_from_lines lines w). contains line ''::''"
    by (simp add: find_lines_after_colon_eq)
  from add_reverse_eq [OF this] show ?thesis
    by (simp add: find_lines_after_colon_eq conj_commute conj_left_commute)
qed

lemma reverse_search_eq: "reverse_search E cleaned = spec_reverse_fallback E cleaned"
  unfolding reverse_search_def Let_def rev_label_eq
  by (simp add: add_reverse_matches spec_reverse_fallback_def)

text \<open>An environment for the examples: both lemmatizers return the word itself.\<close>

definition fallback_env :: env where
  "fallback_env =
     \<lparr>EN_FR_LINES = [''dog {n} :: Chien'', ''one {n} :: 1'', ''loose line''],
      FR_EN_LINES = [''chat {m} :: cat'', ''niche {f} :: doghouse (for a chien)''],
      wn_lemmatize = (\<lambda>w p. Inr w), nlp = (\<lambda>w. Inr [w]), str_hash = (\<lambda>w. 0),
      call_depth = 1000\<rparr>"

lemma collect_results_cases:
  "forward_results E cleaned = Inr forward \<Longrightarrow>
     collect_results E cleaned =
       Inr (if forward = [] then spec_reverse_fallback E cleaned else forward)"
  by (simp add: collect_results_def reverse_search_eq)

text \<open>
  C7, as the code has it.  When the direct and the lemmatized passes leave \<open>results\<close> empty,
  the list that enters the final loop is the fallback just described, in which a
  matching line is swapped and labelled only if it passes the letters test; when they
  leave it non-empty, it is their list and the fallback adds nothing.
\<close>

theorem reverse_fallback:
  assumes "forward_results E cleaned = Inr forward"
  shows "collect_results E cleaned =
     Inr (if forward = [] then spec_reverse_fallback E cleaned else forward)"
  using assms by (simp add: collect_results_def reverse_search_eq)

theorem reverse_fallback_witness:
  "collect_results fallback_env ''chien'' =
     Inr [''EN -> FR: Chien :: dog {n}'', ''EN -> FR: doghouse (for a chien) :: niche {f}'']"
proof -
  have forward: "forward_results fallback_env ''chien'' = Inr []" by code_simp
  have "spec_reverse_fallback fallback_env ''chien'' =
      [''EN -> FR: Chien :: dog {n}'', ''EN -> FR: doghouse (for a chien) :: niche {f}'']"
    by code_simp
  with reverse_fallback [OF forward] show ?thesis by simp
qed


text \<open>The claim of C7 that every matching line is swapped and labelled fails on a line
  whose text after \<open>::\<close> has no letter: the scan for \<open>1\<close> matches it, and it is dropped.\<close>

theorem letterless_match_counterexample:
  "''one {n} :: 1'' \<in> set (EN_FR_LINES fallback_env)
 \<and> ''one {n} :: 1'' \<in> set (find_lines_after_colon_from_lines (EN_FR_LINES fallback_env) ''1'')
 \<and> forward_results fallback_env ''1'' = Inr []
 \<and> collect_results fallback_env ''1'' = Inr []"
  by code_simp

lemma contains_empty: "contains s []"
  by (cases s) (simp_all add: contains_def startswith_def)

lemma mem_dropWhile: "x \<in> set xs \<Longrightarrow> \<not> P x \<Longrightarrow> x \<in> set (dropWhile P xs)"
  by (induction xs) auto

lemma letter_not_space: "ascii_letter c \<Longrightarrow> \<not> py_isspace c"
  by (auto simp: ascii_letter_def py_isspace_def Let_def)

lemma strip_keeps_letters:
  "(\<exists>c\<in>set (strip s). ascii_letter c) \<longleftrightarrow> (\<exists>c\<in>set s. ascii_letter c)"
proof
  assume "\<exists>c\<in>set (strip s). ascii_letter c"
  then show "\<exists>c\<in>set s. ascii_letter c" using set_strip [of s] by auto
next
  assume "\<exists>c\<in>set s. ascii_letter c"
  then obtain c where c: "c \<in> set s" "ascii_letter c" by auto
  then have "\<not> py_isspace c" by (simp add: letter_not_space)
  with c(1) have "c \<in> set (strip s)"
    by (simp add: strip_def mem_dropWhile)
  with c(2) show "\<exists>c\<in>set (strip s). ascii_letter c" by auto
qed

lemma re_search_One: "re_search [One p] s \<noteq> None \<longleftrightarrow> (\<exists>c\<in>set s. p c)"
  by (induction s) (auto simp: re_match_def)

lemma translation_has_letters_iff:
  "translation_has_letters line \<longleftrightarrow>
     (contains line ''::'' \<longrightarrow> (\<exists>c\<in>set (split_once line ''::'' ! 1). ascii_letter c))"
proof -
  have "re_search [One ascii_letter] (strip s) \<noteq> None \<longleftrightarrow> (\<exists>c\<in>set s. ascii_letter c)" for s
    unfolding re_search_One by (rule strip_keeps_letters)
  then show ?thesis unfolding translation_has_letters_def by simp
qed

text \<open>
  C10, as the code has it.  The input \<open>l'\<close> is cleaned to the empty string; the inputs
  \<open>to\<close> and \<open>le\<close> followed by a space are not, since the input is trimmed before the
  prefixes are tested.  When the cleaned word is empty, is a key of neither index, and
  the direct and lemmatized passes add nothing, the fallback returns every line of
  both files that contains \<open>::\<close> and has a letter \<open>a-z\<close> or \<open>A-Z\<close> after the first \<open>::\<close>.
\<close>

theorem empty_cleaned_word_matches_every_line:
  "clean_input (''l'' @ [CHR 0x27]) = []
 \<and> (clean_input w = [] \<and> forward_results E [] = Inr []
      \<and> [] |\<notin>| fmdom (en_fr_index E) \<and> [] |\<notin>| fmdom (fr_en_index E) \<longrightarrow>
    collect_results E (clean_input w) =
      Inr (map (\<lambda>line. ''EN -> FR: '' @ swap_sides line)
            (filter (\<lambda>line. contains line ''::''
                       \<and> (\<exists>c\<in>set (split_once line ''::'' ! 1). ascii_letter c))
               (EN_FR_LINES E @ FR_EN_LINES E))))"
proof -
  have first: "clean_input (''l'' @ [CHR 0x27]) = []" by code_simp
  have second: "collect_results E (clean_input w) =
      Inr (map (\<lambda>line. ''EN -> FR: '' @ swap_sides line)
            (filter (\<lambda>line. contains line ''::''
                       \<and> (\<exists>c\<in>set (split_once line ''::'' ! 1). ascii_letter c))
               (EN_FR_LINES E @ FR_EN_LINES E)))"
    if empty: "clean_input w = []" and forward: "forward_results E [] = Inr []"
      and en: "[] |\<notin>| fmdom (en_fr_index E)" and fr: "[] |\<notin>| fmdom (fr_en_index E)"
  proof -
    from en fr have label: "guessed_label E [] = ''EN -> FR:''"
      by (simp add: guessed_label_def)
    have same: "(\<lambda>line. contains line ''::'' \<and> contains (lower (split_once line ''::'' ! 1)) (lower [])
          \<and> translation_has_letters line) =
        (\<lambda>line. contains line ''::''
          \<and> (\<exists>c\<in>set (split_once line ''::'' ! 1). ascii_letter c))"
      by (auto simp: lower_def contains_empty translation_has_letters_iff)
    from collect_results_cases [OF forward] show ?thesis
      unfolding empty spec_reverse_fallback_def label same by simp
  qed
  from first second show ?thesis by blast
qed

theorem empty_cleaned_word_witness:
  "collect_results fallback_env (clean_input (''l'' @ [CHR 0x27])) =
     Inr [''EN -> FR: Chien :: dog {n}'', ''EN -> FR: cat :: chat {m}'',
          ''EN -> FR: doghouse (for a chien) :: niche {f}'']"
proof -
  have hyps: "clean_input (''l'' @ [CHR 0x27]) = []"
    "forward_results fallback_env [] = Inr []"
    "[] |\<notin>| fmdom (en_fr_index fallback_env)"
    "[] |\<notin>| fmdom (fr_en_index fallback_env)"
    by code_simp+
  have "map (\<lambda>line. ''EN -> FR: '' @ swap_sides line)
      (filter (\<lambda>line. contains line ''::''
                 \<and> (\<exists>c\<in>set (split_once line ''::'' ! 1). ascii_letter c))
         (EN_FR_LINES fallback_env @ FR_EN_LINES fallback_env)) =
    [''EN -> FR: Chien :: dog {n}'', ''EN -> FR: cat :: chat {m}'',
     ''EN -> FR: doghouse (for a chien) :: niche {f}'']"
    by code_simp
  with empty_cleaned_word_matches_every_line [of "''l'' @ [CHR 0x27]" fallback_env] hyps
  show ?thesis by simp
qed

text \<open>The claim of C10 that an infinitive marker or an article followed by whitespace is
  cleaned to the empty string fails on these two inputs.\<close>

theorem marker_alone_is_not_emptied_counterexample:
  "clean_input ''to '' = ''to'' \<and> clean_input ''le '' = ''le''"
  by code_simp

section \<open>Failure of a lemmatizer\<close>

text \<open>An environment whose WordNet lemmatizer raises on every call.\<close>

definition failing_env :: env where
  "failing_env =
     \<lparr>EN_FR_LINES = [''cat {n} :: chat''], FR_EN_LINES = [],
      wn_lemmatize = (\<lambda>w p. Inl (BackendError ''LookupError'')),
      nlp = (\<lambda>w. Inr [w]), str_hash = (\<lambda>w. 0), call_depth = 1000\<rparr>"

text \<open>
  C9, as the code has it.  No call to a lemmatizer is guarded: when one of them fails on
  the cleaned word, the lookup does not go on with the original word alone, and the
  request fails.
\<close>

theorem lemmatizer_failure_fails_request:
  "wn_lemmatize E (clean_input w) NOUN = Inl e
   \<or> wn_lemmatize E (clean_input w) VERB = Inl e
   \<or> nlp E (clean_input w) = Inl e \<longrightarrow>
   (\<exists>e'. translate_word_api E w = Inl e')"
proof -
  have failed: "\<exists>e'. translate_word_api E w = Inl e'"
    if "\<exists>e'. forward_results E (clean_input w) = Inl e'"
    using that by (auto simp: translate_word_api_def collect_results_def Let_def)
  have english: "\<exists>e'. forward_results E c = Inl e'"
    if "\<exists>e'. lemmatize_word_english E c = Inl e'" for c
    using that by (auto simp: forward_results_def Let_def split: sum.splits)
  have french: "\<exists>e'. forward_results E c = Inl e'"
    if "\<exists>e'. lemmatize_word_french E c = Inl e'" for c
    using that by (auto simp: forward_results_def Let_def split: sum.splits)
  have noun: "\<exists>e'. lemmatize_word_english E c = Inl e'"
    if "wn_lemmatize E c NOUN = Inl e" for c
    using that by (simp add: lemmatize_word_english_def)
  have verb: "\<exists>e'. lemmatize_word_english E c = Inl e'"
    if "wn_lemmatize E c VERB = Inl e" for c
    using that by (auto simp: lemmatize_word_english_def split: sum.splits)
  have lemma_fr: "\<exists>e'. lemmatize_word_french E c = Inl e'"
    if "nlp E c = Inl e" for c
    using that by (simp add: lemmatize_word_french_def)
  show ?thesis
    using failed english french noun verb lemma_fr by blast
qed

theorem lemmatizer_failure_fails_request_witness:
  "\<exists>e'. translate_word_api failing_env ''cat'' = Inl e'"
proof -
  have "wn_lemmatize failing_env (clean_input ''cat'') NOUN = Inl (BackendError ''LookupError'')"
    by (simp add: failing_env_def)
  with lemmatizer_failure_fails_request [of failing_env "''cat''" "BackendError ''LookupError''"]
  show ?thesis by blast
qed

text \<open>The claim of C9 that the failure is not propagated fails in \<open>failing_env\<close>: the
  request fails, where a lemmatizer that returns no extra candidate gives a response.\<close>

theorem lemmatizer_failure_counterexample:
  "translate_word_api failing_env ''cat'' = Inl (BackendError ''LookupError'')
 \<and> translate_word_api (failing_env\<lparr>wn_lemmatize := (\<lambda>w p. Inr w)\<rparr>) ''cat'' =
     Inr \<lparr>input_word = ''cat'', cleaned_word = ''cat'',
          translations_list = [''EN -> FR: cat {n} :: chat'']\<rparr>"
  by code_simp

section \<open>The letters test\<close>

text \<open>Every line the resolver returns is a line of a bucket, and every line of a bucket
  of \<open>build_index\<close> is a line of the file.\<close>

lemma add_lemma_lines_set:
  "set (add_lemma_lines label lines results) \<subseteq>
     set results \<union> (\<lambda>l. label @ l) ` {l \<in> set lines. translation_has_letters l}"
proof (induction lines arbitrary: results)
  case Nil
  show ?case by simp
next
  case (Cons line lines)
  define results' where "results' =
    (if translation_has_letters line
     then (let res_line = label @ line
           in if res_line \<notin> set results then results @ [res_line] else results)
     else results)"
  have "set results' \<subseteq> set results \<union>
      (\<lambda>l. label @ l) ` {l \<in> set (line # lines). translation_has_letters l}"
    by (auto simp: results'_def Let_def)
  moreover from Cons.IH [of results'] have
    "set (add_lemma_lines label (line # lines) results) \<subseteq> set results' \<union>
      (\<lambda>l. label @ l) ` {l \<in> set (line # lines). translation_has_letters l}"
    by (auto simp: results'_def)
  ultimately show ?case by blast
qed

lemma add_lemmas_set:
  "add_lemmas E label index lemma_list results = Inr out \<Longrightarrow>
     set out \<subseteq> set results \<union> (\<lambda>l. label @ l) `
       {l. translation_has_letters l \<and> (\<exists>w. l \<in> set (fst (find_lines_in_index index w {})))}"
proof (induction lemma_list arbitrary: results)
  case Nil
  then show ?case by auto
next
  case (Cons lemma0 rest)
  from Cons.prems obtain found where
    found: "find_lines_call E index lemma0 = Inr found"
    and rest: "add_lemmas E label index rest (add_lemma_lines label found results) = Inr out"
    by (auto split: sum.splits)
  from find_lines_call_value [OF found] have
    "found = fst (find_lines_in_index index lemma0 {})" .
  with Cons.IH [OF rest] add_lemma_lines_set [of label found results]
  show ?case by auto
qed

lemma found_lines_in_buckets:
  "set (fst (find_lines_in_index index w v)) \<subseteq> \<Union> (set ` fmran' index)"
  "set (fst (find_lines_loop index ls v' rs)) \<subseteq> set rs \<union> set ls \<union> \<Union> (set ` fmran' index)"
proof (induction index w v and index ls v' rs rule: find_lines_in_index_find_lines_loop.induct)
  case (1 index search_word visited)
  show ?case
  proof (cases "lower search_word \<in> visited")
    case True
    then show ?thesis by (simp add: find_lines_in_index.simps)
  next
    case False
    show ?thesis
    proof (cases "fmlookup index (lower search_word)")
      case None
      with False show ?thesis by (simp add: find_lines_in_index.simps)
    next
      case (Some bucket)
      then have "bucket \<in> fmran' index" by (rule fmran'I)
      with 1 [OF refl False Some] False Some show ?thesis
        by (auto simp: find_lines_in_index.simps)
    qed
  qed
next
  case (2 index visited results)
  show ?case by simp
next
  case (3 index line rest visited results)
  show ?case
  proof (cases "extract_see_reference line")
    case None
    with 3(1) [OF None] show ?thesis by auto
  next
    case (Some see_ref)
    show ?thesis
    proof (cases "see_ref = []")
      case True
      with 3(6) [OF Some] Some show ?thesis by auto
    next
      case False
      obtain recursed visited' where
        r: "find_lines_in_index index see_ref visited = (recursed, visited')"
        by force
      from 3(2) [OF Some False] r have rec: "set recursed \<subseteq> \<Union> (set ` fmran' index)"
        by simp
      show ?thesis
        using 3(3-5) [OF Some False r [symmetric]] Some False r rec
        by (auto split: if_splits)
    qed
  qed
qed

lemma build_index_loop_ran:
  "b \<in> fmran' (build_index_loop index lines) \<Longrightarrow>
     set b \<subseteq> set lines \<union> \<Union> (set ` fmran' index)"
proof (induction lines arbitrary: index)
  case Nil
  then show ?case by auto
next
  case (Cons line lines)
  show ?case
  proof (cases "re_match headword_pattern line")
    case None
    with Cons.IH [of index] Cons.prems show ?thesis by auto
  next
    case (Some m)
    obtain e grp where m: "m = (e, grp)" by (cases m)
    define key where "key = lower (strip grp)"
    define bucket where "bucket = (case fmlookup index key of None \<Rightarrow> [] | Some b \<Rightarrow> b)"
    have upd: "\<Union> (set ` fmran' (fmupd key (bucket @ [line]) index)) \<subseteq>
        insert line (\<Union> (set ` fmran' index))"
    proof
      fix x assume "x \<in> \<Union> (set ` fmran' (fmupd key (bucket @ [line]) index))"
      then obtain b' k where b': "fmlookup (fmupd key (bucket @ [line]) index) k = Some b'"
        "x \<in> set b'"
        by (auto elim!: fmran'E)
      show "x \<in> insert line (\<Union> (set ` fmran' index))"
      proof (cases "k = key")
        case True
        with b' have "x = line \<or> x \<in> set bucket" by auto
        then show ?thesis
        proof
          assume "x = line"
          then show ?thesis by simp
        next
          assume "x \<in> set bucket"
          then obtain b0 where "fmlookup index key = Some b0" "x \<in> set b0"
            by (cases "fmlookup index key") (auto simp: bucket_def)
          then show ?thesis by (auto intro: fmran'I)
        qed
      next
        case False
        with b' show ?thesis by (auto intro: fmran'I)
      qed
    qed
    from Cons.prems Some m have
      "b \<in> fmran' (build_index_loop (fmupd key (bucket @ [line]) index) lines)"
      by (simp add: key_def bucket_def Let_def)
    from Cons.IH [OF this] upd show ?thesis by auto
  qed
qed

lemma build_index_ran: "b \<in> fmran' (build_index lines) \<Longrightarrow> set b \<subseteq> set lines"
proof -
  have "fmran' (fmempty :: index) = {}" by (auto elim: fmran'E)
  with build_index_loop_ran [of b fmempty lines] show
    "b \<in> fmran' (build_index lines) \<Longrightarrow> set b \<subseteq> set lines"
    by (simp add: build_index_def)
qed

lemma found_lines_are_dictionary_lines:
  "set (fst (find_lines_in_index (build_index lines) w v)) \<subseteq> set lines"
  using found_lines_in_buckets(1) [of "build_index lines" w v] build_index_ran [of _ lines]
  by blast


lemma forward_results_origin:
  assumes "forward_results E c = Inr rs" and "r \<in> set rs"
  shows "\<exists>line. translation_has_letters line
     \<and> (line \<in> set (EN_FR_LINES E) \<and> r = ''EN -> FR: '' @ line
        \<or> line \<in> set (FR_EN_LINES E) \<and> r = ''FR -> EN: '' @ line)"
proof -
  from assms(1) obtain direct_en direct_fr lemmas_en lemmas_fr mid where
    den: "find_lines_call E (en_fr_index E) c = Inr direct_en"
    and dfr: "find_lines_call E (fr_en_index E) c = Inr direct_fr"
    and mid: "add_lemmas E ''EN -> FR: '' (en_fr_index E) lemmas_en
        (add_direct ''FR -> EN: '' direct_fr (add_direct ''EN -> FR: '' direct_en [])) = Inr mid"
    and rs: "add_lemmas E ''FR -> EN: '' (fr_en_index E) lemmas_fr mid = Inr rs"
    by (auto simp: forward_results_def Let_def split: sum.splits)
  define direct where
    "direct = add_direct ''FR -> EN: '' direct_fr (add_direct ''EN -> FR: '' direct_en [])"
  have en: "l \<in> set (EN_FR_LINES E)"
    if "l \<in> set (fst (find_lines_in_index (en_fr_index E) w v))" for l w v
    using that found_lines_are_dictionary_lines [of "EN_FR_LINES E" w v]
    by (auto simp: en_fr_index_def)
  have fr: "l \<in> set (FR_EN_LINES E)"
    if "l \<in> set (fst (find_lines_in_index (fr_en_index E) w v))" for l w v
    using that found_lines_are_dictionary_lines [of "FR_EN_LINES E" w v]
    by (auto simp: fr_en_index_def)
  from assms(2) add_lemmas_set [OF rs] add_lemmas_set [OF mid]
  consider (d) "r \<in> set direct"
    | (e) l w where "r = ''EN -> FR: '' @ l" "translation_has_letters l"
        "l \<in> set (fst (find_lines_in_index (en_fr_index E) w {}))"
    | (f) l w where "r = ''FR -> EN: '' @ l" "translation_has_letters l"
        "l \<in> set (fst (find_lines_in_index (fr_en_index E) w {}))"
    unfolding direct_def by blast
  then show ?thesis
  proof cases
    case d
    then show ?thesis
      using find_lines_call_value [OF den] find_lines_call_value [OF dfr]
      by (auto simp: direct_def add_direct_eq dest: en fr)
  next
    case e
    with en [OF e(3)] show ?thesis by blast
  next
    case f
    with fr [OF f(3)] show ?thesis by blast
  qed
qed

lemma dedup_loop_set:
  "set (dedup_loop results seen out) \<subseteq> set out \<union> clean_result ` set results"
proof (induction results arbitrary: seen out)
  case Nil
  show ?case by simp
next
  case (Cons res results)
  from Cons.IH [of "insert (clean_result res) seen" "out @ [clean_result res]"]
    Cons.IH [of seen out]
  show ?case by (auto simp: Let_def)
qed

lemma normalize_set: "set (normalize results) \<subseteq> clean_result ` set results"
  using dedup_loop_set [of results "{}" "[]"] by (simp add: normalize_def)

lemma guessed_label_cases:
  "guessed_label E c = ''EN -> FR:'' \<or> guessed_label E c = ''FR -> EN:''"
  by (simp add: guessed_label_def)

text \<open>The text after the first \<open>::\<close> of a line holds a letter \<open>a-z\<close> or \<open>A-Z\<close>.\<close>

definition letters_after_separator :: "string \<Rightarrow> bool" where
  "letters_after_separator line \<longleftrightarrow> (\<exists>c\<in>set (split_once line ''::'' ! 1). ascii_letter c)"

text \<open>An environment whose English file has a line with no \<open>::\<close> and a line with no
  letter after it.\<close>

definition bare_env :: env where
  "bare_env =
     \<lparr>EN_FR_LINES = [''cat {n}'', ''dog {n} :: 12''], FR_EN_LINES = [],
      wn_lemmatize = (\<lambda>w p. Inr w), nlp = (\<lambda>w. Inr [w]), str_hash = (\<lambda>w. 0),
      call_depth = 1000\<rparr>"

text \<open>
  C6, as the code has it.  \<open>translation_has_letters\<close> returns \<open>True\<close> for a line with no
  \<open>::\<close>, so such a line is never held back.  Every translation of a response, the
  sentinel apart, is the cleaned form of a labelled dictionary line, or of its swapped
  form under a label, and that line either contains \<open>::\<close> and has a letter \<open>a-z\<close> or \<open>A-Z\<close>
  after the first one, or contains no \<open>::\<close> and is shown unswapped.
\<close>

theorem letters_test_of_translations:
  "(\<not> contains line0 ''::'' \<longrightarrow> translation_has_letters line0)
 \<and> (translate_word_api E w = Inr resp \<and> t \<in> set (translations_list resp) \<longrightarrow>
      t = ''Translation not found.''
      \<or> (\<exists>line shown.
            line \<in> set (EN_FR_LINES E) \<union> set (FR_EN_LINES E)
          \<and> t = clean_result shown
          \<and> (contains line ''::'' \<and> letters_after_separator line
                \<and> shown \<in> {''EN -> FR: '' @ line, ''FR -> EN: '' @ line,
                     ''EN -> FR: '' @ swap_sides line, ''FR -> EN: '' @ swap_sides line}
              \<or> \<not> contains line ''::''
                \<and> shown \<in> {''EN -> FR: '' @ line, ''FR -> EN: '' @ line})))"
proof -
  have first: "\<not> contains line0 ''::'' \<longrightarrow> translation_has_letters line0"
    by (simp add: translation_has_letters_def)
  have second: "t = ''Translation not found.''
      \<or> (\<exists>line shown.
            line \<in> set (EN_FR_LINES E) \<union> set (FR_EN_LINES E)
          \<and> t = clean_result shown
          \<and> (contains line ''::'' \<and> letters_after_separator line
                \<and> shown \<in> {''EN -> FR: '' @ line, ''FR -> EN: '' @ line,
                     ''EN -> FR: '' @ swap_sides line, ''FR -> EN: '' @ swap_sides line}
              \<or> \<not> contains line ''::''
                \<and> shown \<in> {''EN -> FR: '' @ line, ''FR -> EN: '' @ line}))"
    if resp: "translate_word_api E w = Inr resp" and t: "t \<in> set (translations_list resp)"
  proof (cases "t = ''Translation not found.''")
    case True
    then show ?thesis by simp
  next
    case False
    from resp obtain results where
      results: "collect_results E (clean_input w) = Inr results"
      and list: "translations_list resp =
        (if normalize results \<noteq> [] then normalize results else [''Translation not found.''])"
      by (auto simp: translate_word_api_def Let_def split: sum.splits)
    from t list False have "t \<in> set (normalize results)" by (auto split: if_splits)
    with normalize_set obtain shown where shown: "shown \<in> set results" "t = clean_result shown"
      by blast
    from results obtain forward where
      forward: "forward_results E (clean_input w) = Inr forward"
      by (auto simp: collect_results_def split: sum.splits)
    from collect_results_cases [OF forward] results have
      res: "results = (if forward = [] then spec_reverse_fallback E (clean_input w) else forward)"
      by simp
    have "\<exists>line. line \<in> set (EN_FR_LINES E) \<union> set (FR_EN_LINES E)
        \<and> (contains line ''::'' \<and> letters_after_separator line
              \<and> shown \<in> {''EN -> FR: '' @ line, ''FR -> EN: '' @ line,
                   ''EN -> FR: '' @ swap_sides line, ''FR -> EN: '' @ swap_sides line}
            \<or> \<not> contains line ''::''
              \<and> shown \<in> {''EN -> FR: '' @ line, ''FR -> EN: '' @ line})"
    proof (cases "forward = []")
      case True
      with res shown(1) obtain line where
        "line \<in> set (EN_FR_LINES E) \<union> set (FR_EN_LINES E)"
        "contains line ''::''" "translation_has_letters line"
        "shown = guessed_label E (clean_input w) @ '' '' @ swap_sides line"
        by (auto simp: spec_reverse_fallback_def)
      with guessed_label_cases [of E "clean_input w"] show ?thesis
        by (auto simp: translation_has_letters_iff letters_after_separator_def)
    next
      case False
      with res shown(1) have "shown \<in> set forward" by simp
      from forward_results_origin [OF forward this] obtain line where
        "translation_has_letters line"
        "line \<in> set (EN_FR_LINES E) \<and> shown = ''EN -> FR: '' @ line
          \<or> line \<in> set (FR_EN_LINES E) \<and> shown = ''FR -> EN: '' @ line"
        by blast
      then show ?thesis
        by (cases "contains line ''::''")
          (auto simp: translation_has_letters_iff letters_after_separator_def)
    qed
    with shown(2) show ?thesis by blast
  qed
  from first second show ?thesis by blast
qed

theorem letters_test_of_translations_witness:
  "translation_has_letters ''cat {n}''
 \<and> (\<exists>line shown.
        line \<in> set (EN_FR_LINES bare_env) \<union> set (FR_EN_LINES bare_env)
      \<and> ''EN -> FR: cat {n}'' = clean_result shown
      \<and> (contains line ''::'' \<and> letters_after_separator line
            \<and> shown \<in> {''EN -> FR: '' @ line, ''FR -> EN: '' @ line,
                 ''EN -> FR: '' @ swap_sides line, ''FR -> EN: '' @ swap_sides line}
          \<or> \<not> contains line ''::''
            \<and> shown \<in> {''EN -> FR: '' @ line, ''FR -> EN: '' @ line}))"
proof -
  have no_sep: "\<not> contains ''cat {n}'' ''::''" by code_simp
  have resp: "translate_word_api bare_env ''cat'' =
      Inr \<lparr>input_word = ''cat'', cleaned_word = ''cat'',
           translations_list = [''EN -> FR: cat {n}'']\<rparr>"
    by code_simp
  have t: "''EN -> FR: cat {n}'' \<in>
      set (translations_list \<lparr>input_word = ''cat'', cleaned_word = ''cat'',
           translations_list = [''EN -> FR: cat {n}'']\<rparr>)"
    by simp
  have ne: "''EN -> FR: cat {n}'' \<noteq> ''Translation not found.''" by simp
  from letters_test_of_translations [of "''cat {n}''" bare_env "''cat''"
      "\<lparr>input_word = ''cat'', cleaned_word = ''cat'',
        translations_list = [''EN -> FR: cat {n}'']\<rparr>"
      "''EN -> FR: cat {n}''"] no_sep resp t ne
  show ?thesis by blast
qed

text \<open>The claim of C6 that a line is included only if the text after its first \<open>::\<close> holds
  an alphabetic character fails on a line that has no \<open>::\<close>.\<close>

theorem line_without_separator_counterexample:
  "translate_word_api bare_env ''cat'' =
     Inr \<lparr>input_word = ''cat'', cleaned_word = ''cat'',
          translations_list = [''EN -> FR: cat {n}'']\<rparr>
 \<and> \<not> contains ''cat {n}'' ''::''"
  by code_simp

section \<open>Normalizing twice\<close>

text \<open>What \<open>remove_extra_spaces\<close> computes, as a recursion on the string: where \<open>}\<close> is
  followed by whitespace, that whitespace becomes one space.\<close>

function collapse_after_brace :: "string \<Rightarrow> string" where
  "collapse_after_brace [] = []"
| "collapse_after_brace (c # cs) =
     (if c = CHR ''}'' \<and> cs \<noteq> [] \<and> py_isspace (hd cs)
      then ''} '' @ collapse_after_brace (dropWhile py_isspace cs)
      else c # collapse_after_brace cs)"
  by pat_completeness auto
termination
  by (relation "measure length") (auto simp: less_Suc_eq_le length_dropWhile_le)

lemma re_match_brace_spaces:
  "re_match brace_spaces_pattern s =
     (case s of
        [] \<Rightarrow> None
      | c # cs \<Rightarrow>
          if c = CHR ''}'' \<and> cs \<noteq> [] \<and> py_isspace (hd cs)
          then Some (Suc (length (takeWhile py_isspace cs)), [])
          else None)"
proof (cases s)
  case Nil
  then show ?thesis by (simp add: re_match_def brace_spaces_pattern_def)
next
  case (Cons c cs)
  show ?thesis
  proof (cases cs)
    case Nil
    with Cons show ?thesis by (simp add: re_match_def brace_spaces_pattern_def)
  next
    case (Cons d ds)
    have "rx [StarG py_isspace] ds 2 (0, 0) = Some (2 + length (takeWhile py_isspace ds), 0, 0)"
      by (rule rx_StarG_only)
    with Cons \<open>s = c # cs\<close> show ?thesis
      by (simp add: re_match_def brace_spaces_pattern_def lit_def numeral_2_eq_2 del: rx.simps(4,5))
  qed
qed

lemma remove_extra_spaces_eq: "remove_extra_spaces s = collapse_after_brace s"
proof (induction s rule: collapse_after_brace.induct)
  case 1
  show ?case by (simp add: remove_extra_spaces_def re_match_brace_spaces)
next
  case (2 c cs)
  then show ?case
    by (simp add: remove_extra_spaces_def re_match_brace_spaces dropWhile_eq_drop)
qed

declare collapse_after_brace.simps(2) [simp del]

lemma not_space_close [simp]: "\<not> py_isspace CHR ''}''"
  by (simp add: py_isspace_def)

lemma space_is_space [simp]: "py_isspace CHR '' ''"
  by (simp add: py_isspace_def)

lemma collapse_no_match:
  "\<not> (c = CHR ''}'' \<and> cs \<noteq> [] \<and> py_isspace (hd cs)) \<Longrightarrow>
     collapse_after_brace (c # cs) = c # collapse_after_brace cs"
  by (auto simp: collapse_after_brace.simps(2))

lemma collapse_space_head:
  "py_isspace c \<Longrightarrow> collapse_after_brace (c # cs) = c # collapse_after_brace cs"
  by (auto simp: collapse_after_brace.simps(2))

lemma collapse_hd:
  "s \<noteq> [] \<Longrightarrow> collapse_after_brace s \<noteq> [] \<and> hd (collapse_after_brace s) = hd s"
  by (cases s) (auto simp: collapse_after_brace.simps(2))

lemma collapse_Nil_iff [simp]: "collapse_after_brace s = [] \<longleftrightarrow> s = []"
  using collapse_hd [of s] by auto

lemma collapse_dropWhile:
  "collapse_after_brace (dropWhile py_isspace s) = dropWhile py_isspace (collapse_after_brace s)"
proof (induction s)
  case Nil
  show ?case by simp
next
  case (Cons c cs)
  show ?case
  proof (cases "py_isspace c")
    case True
    with Cons show ?thesis by (simp add: collapse_space_head)
  next
    case False
    with collapse_hd [of "c # cs"] have
      "dropWhile py_isspace (collapse_after_brace (c # cs)) = collapse_after_brace (c # cs)"
      by (cases "collapse_after_brace (c # cs)") auto
    with False show ?thesis by simp
  qed
qed

lemma collapse_idem: "collapse_after_brace (collapse_after_brace s) = collapse_after_brace s"
proof (induction s rule: collapse_after_brace.induct)
  case 1
  show ?case by simp
next
  case (2 c cs)
  show ?case
  proof (cases "c = CHR ''}'' \<and> cs \<noteq> [] \<and> py_isspace (hd cs)")
    case True
    define D where "D = dropWhile py_isspace cs"
    have DD: "dropWhile py_isspace D = D" by (simp add: D_def)
    from True have unfold: "collapse_after_brace (c # cs) = ''} '' @ collapse_after_brace D"
      by (simp add: collapse_after_brace.simps(2) D_def)
    have "collapse_after_brace (''} '' @ collapse_after_brace D) =
        ''} '' @ collapse_after_brace (dropWhile py_isspace (collapse_after_brace D))"
      by (simp add: collapse_after_brace.simps(2))
    also have "dropWhile py_isspace (collapse_after_brace D) = collapse_after_brace D"
      using collapse_dropWhile [of D] DD by simp
    also have "collapse_after_brace (collapse_after_brace D) = collapse_after_brace D"
      using 2(1) [OF True] by (simp add: D_def)
    finally show ?thesis by (simp add: unfold)
  next
    case False
    then have unfold: "collapse_after_brace (c # cs) = c # collapse_after_brace cs"
      by (rule collapse_no_match)
    from False collapse_hd [of cs] have
      "\<not> (c = CHR ''}'' \<and> collapse_after_brace cs \<noteq> [] \<and> py_isspace (hd (collapse_after_brace cs)))"
      by auto
    then have "collapse_after_brace (c # collapse_after_brace cs) =
        c # collapse_after_brace (collapse_after_brace cs)"
      by (rule collapse_no_match)
    with 2(2) [OF False] unfold show ?thesis by simp
  qed
qed

text \<open>\<open>rstrip\<close>: dropping the whitespace at the end, the second half of \<open>strip\<close>.\<close>

definition rstrip :: "string \<Rightarrow> string" where
  "rstrip s = rev (dropWhile py_isspace (rev s))"

lemma strip_rstrip: "strip s = rstrip (dropWhile py_isspace s)"
  by (simp add: strip_def rstrip_def)

lemma rstrip_Nil [simp]: "rstrip [] = []"
  by (simp add: rstrip_def)

lemma rstrip_Cons:
  "rstrip (c # cs) = (if \<forall>x\<in>set (c # cs). py_isspace x then [] else c # rstrip cs)"
proof (cases "\<forall>x\<in>set cs. py_isspace x")
  case True
  then have "dropWhile py_isspace (rev cs) = []" by simp
  with True show ?thesis
    by (auto simp: rstrip_def dropWhile_append simp del: dropWhile_eq_Nil_conv)
next
  case False
  then have "dropWhile py_isspace (rev cs) \<noteq> []" by simp
  with False show ?thesis
    by (auto simp: rstrip_def dropWhile_append simp del: dropWhile_eq_Nil_conv)
qed

lemma rstrip_all_space: "\<forall>x\<in>set s. py_isspace x \<Longrightarrow> rstrip s = []"
  by (simp add: rstrip_def)

lemma rstrip_hd: "s \<noteq> [] \<Longrightarrow> \<not> py_isspace (hd s) \<Longrightarrow> rstrip s \<noteq> [] \<and> hd (rstrip s) = hd s"
  by (cases s) (auto simp: rstrip_Cons)

lemma rstrip_dropWhile:
  "rstrip (dropWhile py_isspace s) = dropWhile py_isspace (rstrip s)"
proof (induction s)
  case Nil
  show ?case by simp
next
  case (Cons c cs)
  show ?case
  proof (cases "py_isspace c")
    case True
    show ?thesis
    proof (cases "\<forall>x\<in>set cs. py_isspace x")
      case all: True
      then have "dropWhile py_isspace cs = []" by simp
      with True all show ?thesis by (simp add: rstrip_Cons del: dropWhile_eq_Nil_conv)
    next
      case False
      with True Cons show ?thesis by (auto simp: rstrip_Cons)
    qed
  next
    case False
    with rstrip_hd [of "c # cs"] have
      "dropWhile py_isspace (rstrip (c # cs)) = rstrip (c # cs)"
      by (cases "rstrip (c # cs)") auto
    with False show ?thesis by simp
  qed
qed

lemma collapse_all_space:
  "(\<forall>x\<in>set (collapse_after_brace s). py_isspace x) \<longleftrightarrow> (\<forall>x\<in>set s. py_isspace x)"
proof (induction s rule: collapse_after_brace.induct)
  case 1
  show ?case by simp
next
  case (2 c cs)
  show ?case
  proof (cases "c = CHR ''}'' \<and> cs \<noteq> [] \<and> py_isspace (hd cs)")
    case True
    then show ?thesis by (simp add: collapse_after_brace.simps(2))
  next
    case False
    with 2(2) [OF False] show ?thesis by (simp add: collapse_no_match [OF False])
  qed
qed

lemma rstrip_collapse: "rstrip (collapse_after_brace s) = collapse_after_brace (rstrip s)"
proof (induction s rule: collapse_after_brace.induct)
  case 1
  show ?case by simp
next
  case (2 c cs)
  show ?case
  proof (cases "c = CHR ''}'' \<and> cs \<noteq> [] \<and> py_isspace (hd cs)")
    case True
    define D where "D = dropWhile py_isspace cs"
    from True have c: "c = CHR ''}''" and cs: "cs \<noteq> []" "py_isspace (hd cs)" by simp_all
    have IH: "rstrip (collapse_after_brace D) = collapse_after_brace (rstrip D)"
      using 2(1) [OF True] by (simp add: D_def)
    have lhs: "rstrip (collapse_after_brace (c # cs)) =
        CHR ''}'' # rstrip (CHR '' '' # collapse_after_brace D)"
      using True by (simp add: collapse_after_brace.simps(2) D_def rstrip_Cons)
    show ?thesis
    proof (cases "\<forall>x\<in>set cs. py_isspace x")
      case all: True
      then have "D = []" by (simp add: D_def)
      moreover from all have "rstrip cs = []" by (rule rstrip_all_space)
      ultimately show ?thesis
        using lhs c by (simp add: rstrip_Cons collapse_after_brace.simps(2))
    next
      case False
      then have Dne: "D \<noteq> []" by (simp add: D_def)
      then have "\<not> (\<forall>x\<in>set (collapse_after_brace D). py_isspace x)"
        using collapse_all_space [of D] hd_dropWhile [of py_isspace cs] Dne
        by (metis D_def hd_in_set)
      then have l: "rstrip (collapse_after_brace (c # cs)) =
          CHR ''}'' # CHR '' '' # rstrip (collapse_after_brace D)"
        using lhs by (simp add: rstrip_Cons)
      from False cs have rcs: "rstrip cs = hd cs # rstrip (tl cs)"
        by (cases cs) (auto simp: rstrip_Cons)
      from False have "rstrip (c # cs) = c # rstrip cs" by (simp add: rstrip_Cons)
      then have "collapse_after_brace (rstrip (c # cs)) =
          ''} '' @ collapse_after_brace (dropWhile py_isspace (rstrip cs))"
        using c cs rcs by (simp add: collapse_after_brace.simps(2))
      also have "dropWhile py_isspace (rstrip cs) = rstrip D"
        by (simp add: D_def rstrip_dropWhile)
      finally show ?thesis using l IH by simp
    qed
  next
    case False
    then have unfold: "collapse_after_brace (c # cs) = c # collapse_after_brace cs"
      by (rule collapse_no_match)
    show ?thesis
    proof (cases "\<forall>x\<in>set (c # cs). py_isspace x")
      case True
      then have "\<forall>x\<in>set (c # collapse_after_brace cs). py_isspace x"
        using collapse_all_space [of cs] by simp
      with True unfold show ?thesis by (simp add: rstrip_all_space)
    next
      case ns: False
      then have "\<not> (\<forall>x\<in>set (c # collapse_after_brace cs). py_isspace x)"
        using collapse_all_space [of cs] by simp
      then have l: "rstrip (collapse_after_brace (c # cs)) = c # rstrip (collapse_after_brace cs)"
        using unfold by (simp add: rstrip_Cons)
      from ns have r: "rstrip (c # cs) = c # rstrip cs" by (simp add: rstrip_Cons)
      have "\<not> (c = CHR ''}'' \<and> rstrip cs \<noteq> [] \<and> py_isspace (hd (rstrip cs)))"
      proof
        assume a: "c = CHR ''}'' \<and> rstrip cs \<noteq> [] \<and> py_isspace (hd (rstrip cs))"
        then have "cs \<noteq> []" by auto
        with False a have "\<not> py_isspace (hd cs)" by simp
        with rstrip_hd [OF \<open>cs \<noteq> []\<close> this] a show False by simp
      qed
      then have "collapse_after_brace (c # rstrip cs) = c # collapse_after_brace (rstrip cs)"
        by (rule collapse_no_match)
      with l r 2(2) [OF False] show ?thesis by simp
    qed
  qed
qed

lemma strip_collapse: "strip (collapse_after_brace s) = collapse_after_brace (strip s)"
  by (simp add: strip_rstrip collapse_dropWhile [symmetric] rstrip_collapse)

lemma strip_idem: "strip (strip s) = strip s"
proof -
  have "dropWhile py_isspace (strip s) = strip s"
    unfolding strip_rstrip rstrip_dropWhile [symmetric] by simp
  moreover have "rstrip (rstrip t) = rstrip t" for t
    by (simp add: rstrip_def)
  ultimately show ?thesis by (simp add: strip_rstrip)
qed

lemma collapse_no_slash:
  "CHR ''/'' \<notin> set s \<Longrightarrow> CHR ''/'' \<notin> set (collapse_after_brace s)"
proof (induction s rule: collapse_after_brace.induct)
  case 1
  show ?case by simp
next
  case (2 c cs)
  show ?case
  proof (cases "c = CHR ''}'' \<and> cs \<noteq> [] \<and> py_isspace (hd cs)")
    case True
    from 2(3) have "CHR ''/'' \<notin> set (dropWhile py_isspace cs)"
      by (auto dest: set_dropWhileD)
    with 2(1) [OF True] True show ?thesis by (simp add: collapse_after_brace.simps(2))
  next
    case False
    with 2(2) [OF False] 2(3) show ?thesis by (simp add: collapse_no_match [OF False])
  qed
qed

text \<open>Where \<open>/[^/]+/\<close> matches at the start of a string: at a \<open>/\<close> that is followed by
  a character other than \<open>/\<close> and, later, by another \<open>/\<close>.\<close>

definition annotation_at :: "string \<Rightarrow> bool" where
  "annotation_at s =
     (case s of
        [] \<Rightarrow> False
      | c # cs \<Rightarrow> c = CHR ''/'' \<and> cs \<noteq> [] \<and> hd cs \<noteq> CHR ''/'' \<and> CHR ''/'' \<in> set cs)"

lemma rx_non_slashes_slash:
  "rx [StarG (not_lit CHR ''/''), One (lit CHR ''/'')] s i g =
     (if CHR ''/'' \<in> set s
      then Some (Suc (i + length (takeWhile (not_lit CHR ''/'') s)), g) else None)"
  by (induction s arbitrary: i) (auto simp: not_lit_def lit_def)

lemma re_match_phonetics:
  "re_match phonetics_pattern s =
     (if annotation_at s
      then Some (Suc (Suc (length (takeWhile (not_lit CHR ''/'') (tl s)))), [])
      else None)"
proof (cases s)
  case Nil
  then show ?thesis by (simp add: re_match_def phonetics_pattern_def annotation_at_def)
next
  case (Cons c cs)
  show ?thesis
  proof (cases cs)
    case Nil
    with Cons show ?thesis
      by (simp add: re_match_def phonetics_pattern_def annotation_at_def)
  next
    case (Cons d ds)
    have "rx [StarG (not_lit CHR ''/''), One (lit CHR ''/'')] ds 2 (0, 0) =
        (if CHR ''/'' \<in> set ds
         then Some (Suc (2 + length (takeWhile (not_lit CHR ''/'') ds)), 0, 0) else None)"
      by (rule rx_non_slashes_slash)
    with Cons \<open>s = c # cs\<close> show ?thesis
      by (auto simp: re_match_def phonetics_pattern_def annotation_at_def lit_def not_lit_def
          numeral_2_eq_2 simp del: rx.simps(4,5))
  qed
qed

text \<open>What \<open>remove_phonetics\<close> computes, as a recursion on the string.\<close>

function drop_annotations :: "string \<Rightarrow> string" where
  "drop_annotations [] = []"
| "drop_annotations (c # cs) =
     (if annotation_at (c # cs)
      then drop_annotations (tl (dropWhile (not_lit CHR ''/'') cs))
      else c # drop_annotations cs)"
  by pat_completeness auto
termination
proof (relation "measure length", goal_cases)
  case 1
  show ?case by simp
next
  case (2 c cs)
  have "length (tl (dropWhile (not_lit CHR ''/'') cs)) \<le> length cs"
    using length_dropWhile_le [of "not_lit CHR ''/''" cs] by simp
  then show ?case by simp
next
  case 3
  show ?case by simp
qed

declare drop_annotations.simps(2) [simp del]

lemma remove_phonetics_eq: "remove_phonetics s = drop_annotations s"
proof (induction s rule: drop_annotations.induct)
  case 1
  show ?case by (simp add: remove_phonetics_def re_match_phonetics annotation_at_def)
next
  case (2 c cs)
  have "drop (length (takeWhile (not_lit CHR ''/'') cs)) cs = dropWhile (not_lit CHR ''/'') cs"
    by (simp add: dropWhile_eq_drop)
  then have "drop (Suc (length (takeWhile (not_lit CHR ''/'') cs))) cs =
      tl (dropWhile (not_lit CHR ''/'') cs)"
    by (simp add: drop_Suc drop_tl tl_drop)
  with 2 show ?case
    by (simp add: remove_phonetics_def re_match_phonetics drop_annotations.simps(2))
qed

text \<open>A string is annotated when the pattern matches somewhere in it.\<close>

fun annotated :: "string \<Rightarrow> bool" where
  "annotated [] \<longleftrightarrow> False"
| "annotated (c # cs) \<longleftrightarrow> annotation_at (c # cs) \<or> annotated cs"

lemma drop_annotations_fixed: "\<not> annotated s \<Longrightarrow> drop_annotations s = s"
  by (induction s) (auto simp: drop_annotations.simps(2))

lemma drop_annotations_length: "length (drop_annotations s) \<le> length s"
proof (induction s rule: drop_annotations.induct)
  case 1
  show ?case by simp
next
  case (2 c cs)
  show ?case
  proof (cases "annotation_at (c # cs)")
    case True
    have "length (tl (dropWhile (not_lit CHR ''/'') cs)) \<le> length cs"
      using length_dropWhile_le [of "not_lit CHR ''/''" cs] by simp
    with 2(1) [OF True] True show ?thesis by (simp add: drop_annotations.simps(2))
  next
    case False
    with 2(2) [OF False] show ?thesis by (simp add: drop_annotations.simps(2))
  qed
qed

lemma drop_annotations_shorter: "annotated s \<Longrightarrow> length (drop_annotations s) < length s"
proof (induction s)
  case Nil
  then show ?case by simp
next
  case (Cons c cs)
  show ?case
  proof (cases "annotation_at (c # cs)")
    case True
    have "length (tl (dropWhile (not_lit CHR ''/'') cs)) \<le> length cs"
      using length_dropWhile_le [of "not_lit CHR ''/''" cs] by simp
    with drop_annotations_length [of "tl (dropWhile (not_lit CHR ''/'') cs)"] True
    show ?thesis by (simp add: drop_annotations.simps(2))
  next
    case False
    with Cons show ?thesis by (simp add: drop_annotations.simps(2))
  qed
qed

lemma remove_phonetics_fixed_iff: "remove_phonetics s = s \<longleftrightarrow> \<not> annotated s"
  using drop_annotations_fixed [of s] drop_annotations_shorter [of s]
  by (auto simp: remove_phonetics_eq)

lemma annotated_dropWhile: "annotated (dropWhile P s) \<Longrightarrow> annotated s"
  by (induction s) (auto split: if_splits)

lemma set_rstrip: "set (rstrip s) \<subseteq> set s"
  by (auto simp: rstrip_def dest: set_dropWhileD)

lemma annotated_rstrip: "annotated (rstrip s) \<Longrightarrow> annotated s"
proof (induction s)
  case Nil
  then show ?case by simp
next
  case (Cons c cs)
  show ?case
  proof (cases "\<forall>x\<in>set (c # cs). py_isspace x")
    case True
    with Cons.prems show ?thesis by (simp add: rstrip_Cons)
  next
    case False
    then have "rstrip (c # cs) = c # rstrip cs" by (simp add: rstrip_Cons)
    with Cons.prems have "annotation_at (c # rstrip cs) \<or> annotated (rstrip cs)"
      by simp
    then show ?thesis
    proof
      assume "annotated (rstrip cs)"
      with Cons.IH show ?thesis by simp
    next
      assume at: "annotation_at (c # rstrip cs)"
      then have ne: "rstrip cs \<noteq> []" by (simp add: annotation_at_def)
      then have "cs \<noteq> []" by auto
      from ne have "\<not> (\<forall>x\<in>set cs. py_isspace x)" using rstrip_all_space by blast
      with \<open>cs \<noteq> []\<close> have "hd (rstrip cs) = hd cs"
        by (cases cs) (auto simp: rstrip_Cons)
      with at \<open>cs \<noteq> []\<close> set_rstrip [of cs] have "annotation_at (c # cs)"
        by (auto simp: annotation_at_def)
      then show ?thesis by simp
    qed
  qed
qed

lemma annotated_strip: "annotated (strip s) \<Longrightarrow> annotated s"
  unfolding strip_rstrip by (blast dest: annotated_rstrip annotated_dropWhile)

lemma annotated_collapse: "annotated (collapse_after_brace s) \<Longrightarrow> annotated s"
proof (induction s rule: collapse_after_brace.induct)
  case 1
  then show ?case by simp
next
  case (2 c cs)
  show ?case
  proof (cases "c = CHR ''}'' \<and> cs \<noteq> [] \<and> py_isspace (hd cs)")
    case True
    with 2(3) have "annotated (collapse_after_brace (dropWhile py_isspace cs))"
      by (simp add: collapse_after_brace.simps(2) annotation_at_def)
    from 2(1) [OF True this] have "annotated cs" by (rule annotated_dropWhile)
    then show ?thesis by simp
  next
    case False
    with 2(3) have "annotation_at (c # collapse_after_brace cs) \<or> annotated (collapse_after_brace cs)"
      by (simp add: collapse_no_match [OF False])
    then show ?thesis
    proof
      assume "annotated (collapse_after_brace cs)"
      with 2(2) [OF False] show ?thesis by simp
    next
      assume at: "annotation_at (c # collapse_after_brace cs)"
      then have ne: "cs \<noteq> []" by (auto simp: annotation_at_def)
      from at collapse_no_slash [of cs] have "CHR ''/'' \<in> set cs"
        by (auto simp: annotation_at_def)
      with at ne collapse_hd [OF ne] have "annotation_at (c # cs)"
        by (auto simp: annotation_at_def)
      then show ?thesis by simp
    qed
  qed
qed

lemma clean_result_unannotated:
  assumes "remove_phonetics s = s"
  shows "clean_result s = strip (collapse_after_brace s)"
    and "remove_phonetics (clean_result s) = clean_result s"
proof -
  from assms have "\<not> annotated s" by (simp add: remove_phonetics_fixed_iff)
  then have c: "\<not> annotated (collapse_after_brace s)" by (blast dest: annotated_collapse)
  then have "remove_phonetics (collapse_after_brace s) = collapse_after_brace s"
    by (simp add: remove_phonetics_fixed_iff)
  then show eq: "clean_result s = strip (collapse_after_brace s)"
    by (simp add: clean_result_def remove_extra_spaces_eq)
  from c have "\<not> annotated (strip (collapse_after_brace s))" by (blast dest: annotated_strip)
  then show "remove_phonetics (clean_result s) = clean_result s"
    by (simp add: eq remove_phonetics_fixed_iff)
qed

lemma clean_result_twice:
  assumes "remove_phonetics s = s"
  shows "clean_result (clean_result s) = clean_result s"
proof -
  have "clean_result (clean_result s) = strip (collapse_after_brace (clean_result s))"
    using clean_result_unannotated(2) [OF assms] by (rule clean_result_unannotated(1))
  also have "\<dots> = strip (collapse_after_brace (strip (collapse_after_brace s)))"
    by (simp add: clean_result_unannotated(1) [OF assms])
  also have "\<dots> = strip (collapse_after_brace s)"
    by (simp add: strip_collapse collapse_idem strip_idem)
  finally show ?thesis by (simp add: clean_result_unannotated(1) [OF assms])
qed

lemma not_space_slash [simp]: "\<not> py_isspace CHR ''/''"
  by (simp add: py_isspace_def)

lemma drop_annotations_spaces_prefix:
  "\<forall>x\<in>set ws. py_isspace x \<Longrightarrow> drop_annotations (ws @ t) = ws @ drop_annotations t"
  by (induction ws) (auto simp: drop_annotations.simps(2) annotation_at_def)

lemma annotation_at_spaces_suffix:
  assumes "\<forall>x\<in>set ws. py_isspace x"
  shows "annotation_at (t @ ws) \<longleftrightarrow> annotation_at t"
proof -
  from assms have ns: "CHR ''/'' \<notin> set ws" by auto
  show ?thesis
  proof (cases t)
    case Nil
    with ns show ?thesis by (cases ws) (auto simp: annotation_at_def)
  next
    case (Cons c cs)
    with ns show ?thesis by (cases cs) (auto simp: annotation_at_def)
  qed
qed

lemma drop_annotations_spaces_suffix:
  "\<forall>x\<in>set ws. py_isspace x \<Longrightarrow> drop_annotations (t @ ws) = drop_annotations t @ ws"
proof (induction t rule: drop_annotations.induct)
  case 1
  from drop_annotations_spaces_prefix [OF 1, of "[]"] show ?case by simp
next
  case (2 c cs)
  have at: "annotation_at (c # cs @ ws) \<longleftrightarrow> annotation_at (c # cs)"
    using annotation_at_spaces_suffix [OF 2(3), of "c # cs"] by simp
  show ?case
  proof (cases "annotation_at (c # cs)")
    case True
    then have sl: "CHR ''/'' \<in> set cs" by (simp add: annotation_at_def)
    then have "dropWhile (not_lit CHR ''/'') (cs @ ws) = dropWhile (not_lit CHR ''/'') cs @ ws"
      by (intro dropWhile_append1 [of "CHR ''/''"]) (simp_all add: not_lit_def)
    moreover from sl have "dropWhile (not_lit CHR ''/'') cs \<noteq> []"
      by (auto simp: not_lit_def)
    ultimately have "tl (dropWhile (not_lit CHR ''/'') (cs @ ws)) =
        tl (dropWhile (not_lit CHR ''/'') cs) @ ws"
      by simp
    with 2(1) [OF True 2(3)] True at show ?thesis
      by (simp add: drop_annotations.simps(2))
  next
    case False
    with 2(2) [OF False 2(3)] at show ?thesis
      by (simp add: drop_annotations.simps(2))
  qed
qed

lemma rstrip_spaces_suffix:
  assumes "\<forall>x\<in>set ws. py_isspace x"
  shows "rstrip (u @ ws) = rstrip u"
proof -
  from assms have "dropWhile py_isspace (rev ws @ rev u) = dropWhile py_isspace (rev u)"
    by (intro dropWhile_append2) auto
  then show ?thesis by (simp add: rstrip_def)
qed

lemma strip_spaces_around:
  assumes "\<forall>x\<in>set ws1. py_isspace x" "\<forall>x\<in>set ws2. py_isspace x"
  shows "strip (ws1 @ u @ ws2) = strip u"
proof -
  have "strip (ws1 @ u @ ws2) = dropWhile py_isspace (rstrip ((ws1 @ u) @ ws2))"
    by (simp add: strip_rstrip rstrip_dropWhile)
  also have "\<dots> = dropWhile py_isspace (rstrip (ws1 @ u))"
    by (simp only: rstrip_spaces_suffix [OF assms(2)])
  also have "\<dots> = rstrip (dropWhile py_isspace (ws1 @ u))"
    by (simp add: rstrip_dropWhile)
  also from assms(1) have "dropWhile py_isspace (ws1 @ u) = dropWhile py_isspace u"
    by (simp add: dropWhile_append2)
  finally show ?thesis by (simp add: strip_rstrip)
qed

lemma strip_decomposition:
  "\<exists>ws1 ws2. (\<forall>x\<in>set ws1. py_isspace x) \<and> (\<forall>x\<in>set ws2. py_isspace x)
     \<and> s = ws1 @ strip s @ ws2"
proof -
  define t where "t = dropWhile py_isspace s"
  have "rev (dropWhile py_isspace (rev t)) @ rev (takeWhile py_isspace (rev t)) =
      rev (takeWhile py_isspace (rev t) @ dropWhile py_isspace (rev t))"
    by (simp only: rev_append)
  also have "\<dots> = rev (rev t)" by (simp only: takeWhile_dropWhile_id)
  also have "\<dots> = t" by simp
  finally have "t = rev (dropWhile py_isspace (rev t)) @ rev (takeWhile py_isspace (rev t))"
    by (rule sym)
  moreover have "strip s = rev (dropWhile py_isspace (rev t))"
    by (simp add: strip_def t_def)
  ultimately have t: "t = strip s @ rev (takeWhile py_isspace (rev t))"
    by (simp only:)
  have "s = takeWhile py_isspace s @ t" by (simp add: t_def)
  with t have "s = takeWhile py_isspace s @ strip s @ rev (takeWhile py_isspace (rev t))"
    by simp
  moreover have "\<forall>x\<in>set (takeWhile py_isspace s). py_isspace x"
    by (auto dest: set_takeWhileD)
  moreover have "\<forall>x\<in>set (rev (takeWhile py_isspace (rev t))). py_isspace x"
    by (auto dest: set_takeWhileD)
  ultimately show ?thesis by blast
qed

lemma strip_drop_annotations_strip:
  "strip (drop_annotations (strip s)) = strip (drop_annotations s)"
proof -
  from strip_decomposition [of s] obtain ws1 ws2 where
    ws: "\<forall>x\<in>set ws1. py_isspace x" "\<forall>x\<in>set ws2. py_isspace x" and s: "s = ws1 @ strip s @ ws2"
    by blast
  have "drop_annotations (ws1 @ strip s @ ws2) = ws1 @ drop_annotations (strip s) @ ws2"
    by (simp add: drop_annotations_spaces_prefix [OF ws(1)]
        drop_annotations_spaces_suffix [OF ws(2)])
  with s have "drop_annotations s = ws1 @ drop_annotations (strip s) @ ws2" by simp
  then have "strip (drop_annotations s) = strip (ws1 @ drop_annotations (strip s) @ ws2)"
    by simp
  also have "\<dots> = strip (drop_annotations (strip s))"
    using ws by (rule strip_spaces_around)
  finally show ?thesis by simp
qed

lemma collapse_no_brace: "CHR ''}'' \<notin> set s \<Longrightarrow> collapse_after_brace s = s"
proof (induction s)
  case Nil
  show ?case by simp
next
  case (Cons c cs)
  then have "\<not> (c = CHR ''}'' \<and> cs \<noteq> [] \<and> py_isspace (hd cs))" by auto
  from collapse_no_match [OF this] Cons show ?case by simp
qed

lemma set_drop_annotations: "set (drop_annotations s) \<subseteq> set s"
proof (induction s rule: drop_annotations.induct)
  case 1
  show ?case by simp
next
  case (2 c cs)
  show ?case
  proof (cases "annotation_at (c # cs)")
    case True
    have "set (tl xs) \<subseteq> set xs" for xs :: string
      by (cases xs) auto
    moreover have "set (dropWhile (not_lit CHR ''/'') cs) \<subseteq> set cs"
      by (auto dest: set_dropWhileD)
    ultimately have "set (tl (dropWhile (not_lit CHR ''/'') cs)) \<subseteq> set cs"
      by blast
    with 2(1) [OF True] True show ?thesis
      by (auto simp: drop_annotations.simps(2))
  next
    case False
    with 2(2) [OF False] show ?thesis by (auto simp: drop_annotations.simps(2))
  qed
qed

lemma clean_result_no_brace:
  "CHR ''}'' \<notin> set s \<Longrightarrow> clean_result s = strip (remove_phonetics s)"
  by (simp add: clean_result_def remove_extra_spaces_eq collapse_no_brace)

lemma clean_result_twice_no_brace:
  assumes "CHR ''}'' \<notin> set s" "remove_phonetics (remove_phonetics s) = remove_phonetics s"
  shows "clean_result (clean_result s) = clean_result s"
proof -
  from assms(1) set_strip [of "remove_phonetics s"] set_drop_annotations [of s]
  have "CHR ''}'' \<notin> set (strip (remove_phonetics s))"
    by (auto simp: remove_phonetics_eq)
  then have "clean_result (strip (remove_phonetics s)) =
      strip (remove_phonetics (strip (remove_phonetics s)))"
    by (rule clean_result_no_brace)
  also have "\<dots> = strip (remove_phonetics (remove_phonetics s))"
    by (simp add: remove_phonetics_eq strip_drop_annotations_strip)
  finally show ?thesis
    by (simp add: clean_result_no_brace [OF assms(1)] assms(2))
qed

lemma dedup_loop_distinct:
  "distinct out \<Longrightarrow> seen = set out \<Longrightarrow> distinct (dedup_loop results seen out)"
proof (induction results arbitrary: seen out)
  case Nil
  then show ?case by simp
next
  case (Cons res results)
  show ?case
  proof (cases "clean_result res \<in> seen")
    case True
    with Cons.IH [OF Cons.prems] show ?thesis by simp
  next
    case False
    with Cons.prems have "distinct (out @ [clean_result res])"
      "insert (clean_result res) seen = set (out @ [clean_result res])"
      by auto
    from Cons.IH [OF this] False show ?thesis by (simp add: Let_def)
  qed
qed

lemma dedup_loop_fixed:
  "distinct (out @ ys) \<Longrightarrow> seen = set out \<Longrightarrow> \<forall>y\<in>set ys. clean_result y = y \<Longrightarrow>
     dedup_loop ys seen out = out @ ys"
proof (induction ys arbitrary: seen out)
  case Nil
  then show ?case by simp
next
  case (Cons y ys)
  from Cons.prems have y: "clean_result y = y" "y \<notin> seen" by auto
  from Cons.prems have "distinct ((out @ [y]) @ ys)" "insert y seen = set (out @ [y])"
    "\<forall>y\<in>set ys. clean_result y = y"
    by auto
  from Cons.IH [OF this] y show ?case by (simp add: Let_def)
qed

text \<open>
  C5, as the code has it.  Normalizing twice gives what normalizing once gives on a
  sequence in which every string either holds no annotation \<open>/.../\<close> (removing the
  annotations leaves it as it is), or holds no \<open>}\<close> and loses all its annotations in one
  removal.
\<close>

theorem normalize_idempotent:
  assumes "\<forall>x\<in>set X. remove_phonetics x = x
             \<or> CHR ''}'' \<notin> set x \<and> remove_phonetics (remove_phonetics x) = remove_phonetics x"
  shows "normalize (normalize X) = normalize X"
proof -
  have fixed: "\<forall>y\<in>set (normalize X). clean_result y = y"
  proof
    fix y assume "y \<in> set (normalize X)"
    with normalize_set obtain x where x: "x \<in> set X" "y = clean_result x" by blast
    with assms have "remove_phonetics x = x
        \<or> CHR ''}'' \<notin> set x \<and> remove_phonetics (remove_phonetics x) = remove_phonetics x"
      by simp
    then have "clean_result (clean_result x) = clean_result x"
      by (auto intro: clean_result_twice clean_result_twice_no_brace)
    with x(2) show "clean_result y = y" by simp
  qed
  have "distinct (normalize X)"
    by (simp add: normalize_def dedup_loop_distinct)
  then have "distinct ([] @ normalize X)" by simp
  from dedup_loop_fixed [OF this _ fixed, of "{}"] show ?thesis
    by (simp add: normalize_def)
qed

theorem normalize_idempotent_witness:
  "normalize (normalize [''EN -> FR: speed {n}    :: 10 km/h '', ''FR -> EN: chat /Sa/ :: cat'',
      ''EN -> FR: speed {n} :: 10 km/h'']) =
     [''EN -> FR: speed {n} :: 10 km/h'', ''FR -> EN: chat  :: cat'']"
proof -
  have "remove_phonetics ''EN -> FR: speed {n}    :: 10 km/h '' = ''EN -> FR: speed {n}    :: 10 km/h ''"
    "remove_phonetics ''EN -> FR: speed {n} :: 10 km/h'' = ''EN -> FR: speed {n} :: 10 km/h''"
    "CHR ''}'' \<notin> set ''FR -> EN: chat /Sa/ :: cat''"
    "remove_phonetics (remove_phonetics ''FR -> EN: chat /Sa/ :: cat'') =
       remove_phonetics ''FR -> EN: chat /Sa/ :: cat''"
    by code_simp+
  then have hyp:
    "\<forall>x\<in>set [''EN -> FR: speed {n}    :: 10 km/h '', ''FR -> EN: chat /Sa/ :: cat'',
        ''EN -> FR: speed {n} :: 10 km/h''].
      remove_phonetics x = x
      \<or> CHR ''}'' \<notin> set x \<and> remove_phonetics (remove_phonetics x) = remove_phonetics x"
    by simp
  have "normalize [''EN -> FR: speed {n}    :: 10 km/h '', ''FR -> EN: chat /Sa/ :: cat'',
      ''EN -> FR: speed {n} :: 10 km/h''] =
     [''EN -> FR: speed {n} :: 10 km/h'', ''FR -> EN: chat  :: cat'']"
    by code_simp
  with normalize_idempotent [OF hyp] show ?thesis by simp
qed

text \<open>The claim of C5 that normalizing is idempotent on every sequence fails where the
  removal of one annotation leaves another: \<open>re.sub\<close> replaces the matches of one scan
  from left to right, so that \<open>//x/y/\<close> loses \<open>/x/\<close> and keeps \<open>/y/\<close>, which the second
  normalization removes.  The line holds no \<open>}\<close>: \<open>remove_extra_spaces\<close> leaves each of
  the three strings as it is.\<close>

theorem exposed_annotation_counterexample:
  "normalize [''EN -> FR: w //x/y/ :: t''] = [''EN -> FR: w /y/ :: t'']
 \<and> normalize (normalize [''EN -> FR: w //x/y/ :: t'']) = [''EN -> FR: w  :: t'']
 \<and> remove_extra_spaces ''EN -> FR: w //x/y/ :: t'' = ''EN -> FR: w //x/y/ :: t''
 \<and> remove_extra_spaces ''EN -> FR: w /y/ :: t'' = ''EN -> FR: w /y/ :: t''
 \<and> remove_extra_spaces ''EN -> FR: w  :: t'' = ''EN -> FR: w  :: t''"
  by code_simp

end
